theory Spec2Isabelle
  imports Complex_Main
begin

section \<open>Python values, errors and the builtins the migration script relies on\<close>

text \<open>
  The script \<^verbatim>\<open>migrate_milvus_to_tidb.py\<close> moves rows of a Milvus collection into a TiDB
  table. Rows are Python dictionaries \<^verbatim>\<open>Dict[str, Any]\<close>; the values that occur in them are
  modelled by \<open>pyval\<close>. Floating point numbers are kept abstract (the type parameter \<open>'f\<close>):
  the conversions between them and integers or strings are Python builtins and are taken as
  parameters (\<open>pyops\<close>). Every exception is a value of \<open>error\<close>, and a function that may raise
  returns \<open>error + 'a\<close> with \<open>Inl\<close> for the exception.
\<close>

datatype error =
    ClickException string
  | TypeError
  | ValueError
  | OverflowError
  | AttributeError
  | StoreError string

datatype 'f pyval =
    PNone
  | PBool bool
  | PInt int
  | PFloat 'f
  | PStr string
  | PList "'f pyval list"
  | PTuple "'f pyval list"
  | PDict "(string \<times> 'f pyval) list"

type_synonym 'f row = "string \<rightharpoonup> 'f pyval"

record 'f pyops =
  int_of_float :: "'f \<Rightarrow> error + int"
  int_of_str :: "string \<Rightarrow> error + int"
  float_of_int :: "int \<Rightarrow> error + 'f"
  float_of_str :: "string \<Rightarrow> error + 'f"
  float_truthy :: "'f \<Rightarrow> bool"

text \<open>\<^verbatim>\<open>int(x)\<close>\<close>

fun py_int :: "'f pyops \<Rightarrow> 'f pyval \<Rightarrow> error + int" where
  "py_int ops PNone = Inl TypeError"
| "py_int ops (PBool b) = Inr (if b then 1 else 0)"
| "py_int ops (PInt i) = Inr i"
| "py_int ops (PFloat x) = int_of_float ops x"
| "py_int ops (PStr s) = int_of_str ops s"
| "py_int ops (PList xs) = Inl TypeError"
| "py_int ops (PTuple xs) = Inl TypeError"
| "py_int ops (PDict d) = Inl TypeError"

text \<open>\<^verbatim>\<open>float(x)\<close>\<close>

fun py_float :: "'f pyops \<Rightarrow> 'f pyval \<Rightarrow> error + 'f" where
  "py_float ops PNone = Inl TypeError"
| "py_float ops (PBool b) = float_of_int ops (if b then 1 else 0)"
| "py_float ops (PInt i) = float_of_int ops i"
| "py_float ops (PFloat x) = Inr x"
| "py_float ops (PStr s) = float_of_str ops s"
| "py_float ops (PList xs) = Inl TypeError"
| "py_float ops (PTuple xs) = Inl TypeError"
| "py_float ops (PDict d) = Inl TypeError"

text \<open>Truth value of an object, as \<^verbatim>\<open>not x\<close> and \<^verbatim>\<open>x or y\<close> test it.\<close>

fun py_truthy :: "'f pyops \<Rightarrow> 'f pyval \<Rightarrow> bool" where
  "py_truthy ops PNone = False"
| "py_truthy ops (PBool b) = b"
| "py_truthy ops (PInt i) = (i \<noteq> 0)"
| "py_truthy ops (PFloat x) = float_truthy ops x"
| "py_truthy ops (PStr s) = (s \<noteq> [])"
| "py_truthy ops (PList xs) = (xs \<noteq> [])"
| "py_truthy ops (PTuple xs) = (xs \<noteq> [])"
| "py_truthy ops (PDict d) = (d \<noteq> [])"

text \<open>\<^verbatim>\<open>list(x)\<close>: the elements an iterable yields; a non-iterable raises TypeError.\<close>

fun py_list :: "'f pyval \<Rightarrow> error + 'f pyval list" where
  "py_list (PList xs) = Inr xs"
| "py_list (PTuple xs) = Inr xs"
| "py_list (PStr s) = Inr (map (\<lambda>c. PStr [c]) s)"
| "py_list (PDict d) = Inr (map (\<lambda>kv. PStr (fst kv)) d)"
| "py_list PNone = Inl TypeError"
| "py_list (PBool b) = Inl TypeError"
| "py_list (PInt i) = Inl TypeError"
| "py_list (PFloat x) = Inl TypeError"

text \<open>A comprehension \<^verbatim>\<open>[f(x) for x in xs]\<close> whose body may raise: the first exception wins.\<close>

fun map_res :: "('a \<Rightarrow> error + 'b) \<Rightarrow> 'a list \<Rightarrow> error + 'b list" where
  "map_res f [] = Inr []"
| "map_res f (x # xs) =
     (case f x of
        Inl e \<Rightarrow> Inl e
      | Inr y \<Rightarrow> (case map_res f xs of Inl e \<Rightarrow> Inl e | Inr ys \<Rightarrow> Inr (y # ys)))"

text \<open>\<^verbatim>\<open>str(i)\<close> for an integer: decimal digits, a leading minus sign when negative.\<close>

definition digit_char :: "nat \<Rightarrow> char" where
  "digit_char d = ''0123456789'' ! d"

function show_nat :: "nat \<Rightarrow> string" where
  "show_nat n = (if n < 10 then [digit_char n] else show_nat (n div 10) @ [digit_char (n mod 10)])"
  by pat_completeness auto
termination
  by (relation "measure (\<lambda>n. n)") auto

declare show_nat.simps [simp del]

definition show_int :: "int \<Rightarrow> string" where
  "show_int i = (if i < 0 then CHR ''-'' # show_nat (nat (- i)) else show_nat (nat i))"

text \<open>\<^verbatim>\<open>sep.join(parts)\<close>\<close>

fun join :: "string \<Rightarrow> string list \<Rightarrow> string" where
  "join sep [] = []"
| "join sep [x] = x"
| "join sep (x # y # ys) = x @ sep @ join sep (y # ys)"

text \<open>\<^verbatim>\<open>d.get(k)\<close> on a row: the value, or None when the key is absent.\<close>

definition row_get :: "'f row \<Rightarrow> string \<Rightarrow> 'f pyval" where
  "row_get r k = (case r k of None \<Rightarrow> PNone | Some v \<Rightarrow> v)"

text \<open>\<^verbatim>\<open>d.get(k, default)\<close>\<close>

definition row_get_default :: "'f row \<Rightarrow> string \<Rightarrow> 'f pyval \<Rightarrow> 'f pyval" where
  "row_get_default r k d = (case r k of None \<Rightarrow> d | Some v \<Rightarrow> v)"

text \<open>The guard \<^verbatim>\<open>"id" in r and r["id"] is not None\<close>.\<close>

definition has_id :: "'f row \<Rightarrow> bool" where
  "has_id r = (case r ''id'' of None \<Rightarrow> False | Some v \<Rightarrow> v \<noteq> PNone)"

section \<open>The external stores\<close>

text \<open>
  The Milvus client and the TiDB client are libraries outside the repository. Their
  operations are parameters of the model; each may fail. The state of the destination table
  is a value of type \<open>'t\<close>: a query reads it, a bulk insert returns the new state.
\<close>

record 'f milvus_client =
  has_collection :: "string \<Rightarrow> error + bool"
  load_collection :: "string \<Rightarrow> error + unit"
  describe_collection :: "string \<Rightarrow> error + 'f pyval"
  mquery :: "string \<Rightarrow> string \<Rightarrow> string list \<Rightarrow> int \<Rightarrow> int \<Rightarrow> error + 'f row list"

text \<open>The record staged for insertion (the dictionary literal of lines 169-177).\<close>

record 'f chunk =
  chunk_id :: int
  chunk_text :: "'f pyval"
  doc_id :: "'f pyval"
  chunk_index :: int
  source :: "'f pyval"
  created_at :: "'f pyval"
  embedding :: "'f list"

record ('t, 'f) tidb_client =
  has_table :: "string \<Rightarrow> error + bool"
  create_table :: "string \<Rightarrow> int \<Rightarrow> error + 't"
  open_table :: "string \<Rightarrow> error + 't option"
  tquery :: "'t \<Rightarrow> string \<Rightarrow> error + 'f row list"
  bulk_insert :: "'t \<Rightarrow> 'f chunk list \<Rightarrow> error + 't"

record ('t, 'f) world =
  getenv :: "string \<Rightarrow> string option"
  connect_milvus :: "string \<Rightarrow> string \<Rightarrow> error + 'f milvus_client"
  connect_tidb ::
    "string \<Rightarrow> int \<Rightarrow> string \<Rightarrow> string \<Rightarrow> string \<Rightarrow> bool \<Rightarrow> bool \<Rightarrow> error + ('t, 'f) tidb_client"
  builtins :: "'f pyops"

section \<open>The functions of \<^verbatim>\<open>migrate_milvus_to_tidb.py\<close>\<close>

text \<open>\<^verbatim>\<open>not s\<close> for the result of \<^verbatim>\<open>os.getenv\<close>: None or the empty string.\<close>

definition env_missing :: "string option \<Rightarrow> bool" where
  "env_missing v = (case v of None \<Rightarrow> True | Some s \<Rightarrow> s = [])"

definition env_str :: "string option \<Rightarrow> string" where
  "env_str v = (case v of None \<Rightarrow> ''None'' | Some s \<Rightarrow> s)"

definition milvus_client_of :: "('t, 'f) world \<Rightarrow> error + 'f milvus_client" where
  "milvus_client_of w =
     (let host = getenv w ''MILVUS_HOST''; grpc_port = getenv w ''MILVUS_GRPC_PORT'' in
      if env_missing host \<or> env_missing grpc_port
      then Inl (ClickException ''Missing MILVUS_HOST / MILVUS_GRPC_PORT in env or .env'')
      else connect_milvus w (''http://'' @ env_str host @ '':'' @ env_str grpc_port) ''root:Milvus'')"

definition tidb_client_of :: "('t, 'f) world \<Rightarrow> bool \<Rightarrow> error + ('t, 'f) tidb_client" where
  "tidb_client_of w enable_ssl =
     (let host = getenv w ''DB_HOST''; port = getenv w ''DB_PORT'';
          username = getenv w ''DB_USERNAME'';
          password = (case getenv w ''DB_PASSWORD'' of None \<Rightarrow> [] | Some s \<Rightarrow> s);
          database = getenv w ''DB_DATABASE'' in
      if env_missing host \<or> env_missing port \<or> env_missing username \<or> env_missing database
      then Inl (ClickException
             ''Missing one of DB_HOST / DB_PORT / DB_USERNAME / DB_DATABASE in env or .env'')
      else (case int_of_str (builtins w) (env_str port) of
              Inl e \<Rightarrow> Inl e
            | Inr p \<Rightarrow>
                connect_tidb w (env_str host) p (env_str username) password (env_str database)
                  enable_ssl True))"

definition milvus_filter :: "int \<Rightarrow> int option \<Rightarrow> string" where
  "milvus_filter start end =
     (case end of
        None \<Rightarrow> ''id >= '' @ show_int start
      | Some e \<Rightarrow> ''id >= '' @ show_int start @ '' && id < '' @ show_int e)"

definition coerce_embedding :: "'f pyops \<Rightarrow> 'f pyval \<Rightarrow> error + 'f list" where
  "coerce_embedding ops vec =
     (case vec of
        PNone \<Rightarrow> Inr []
      | PList xs \<Rightarrow> map_res (py_float ops) xs
      | _ \<Rightarrow> (case py_list vec of Inl e \<Rightarrow> Inl e | Inr xs \<Rightarrow> map_res (py_float ops) xs))"

definition output_fields :: "string list" where
  "output_fields =
     [''id'', ''chunk_text'', ''doc_id'', ''chunk_index'', ''source'', ''created_at'', ''embedding'']"

definition fetch_milvus_page ::
  "'f milvus_client \<Rightarrow> string \<Rightarrow> int \<Rightarrow> int option \<Rightarrow> int \<Rightarrow> int \<Rightarrow> error + 'f row list" where
  "fetch_milvus_page client collection start end limit offset =
     mquery client collection (milvus_filter start end) output_fields limit offset"

text \<open>The ids of the rows that carry one (the comprehensions of lines 99 and 155).\<close>

definition row_ids :: "'f pyops \<Rightarrow> 'f row list \<Rightarrow> error + int list" where
  "row_ids ops rows = map_res (\<lambda>r. py_int ops (row_get r ''id'')) (filter has_id rows)"

definition existing_ids_in_tidb ::
  "'f pyops \<Rightarrow> ('t, 'f) tidb_client \<Rightarrow> 't \<Rightarrow> int list \<Rightarrow> error + int set" where
  "existing_ids_in_tidb ops tidb table ids =
     (if ids = [] then Inr {}
      else (let ids_sql = join '','' (map show_int ids) in
            case tquery tidb table (''id IN ('' @ ids_sql @ '')'') of
              Inl e \<Rightarrow> Inl e
            | Inr rows \<Rightarrow> (case row_ids ops rows of Inl e \<Rightarrow> Inl e | Inr is \<Rightarrow> Inr (set is))))"

text \<open>
  The loop over a page (lines 158-178): \<open>skipped\<close> and \<open>to_insert\<close> are the two variables it
  updates. A row without an id is passed over; a row whose id is in \<open>existing\<close> counts as
  skipped; every other row is appended to \<open>to_insert\<close>.
\<close>

definition make_chunk :: "'f pyops \<Rightarrow> 'f row \<Rightarrow> int \<Rightarrow> error + 'f chunk" where
  "make_chunk ops r rid_int =
     (let ci = row_get_default r ''chunk_index'' (PInt 0) in
      case py_int ops (if py_truthy ops ci then ci else PInt 0) of
        Inl e \<Rightarrow> Inl e
      | Inr idx \<Rightarrow>
          (case coerce_embedding ops (row_get r ''embedding'') of
             Inl e \<Rightarrow> Inl e
           | Inr emb \<Rightarrow>
               Inr \<lparr>chunk_id = rid_int,
                    chunk_text = row_get_default r ''chunk_text'' (PStr []),
                    doc_id = row_get_default r ''doc_id'' (PStr []),
                    chunk_index = idx,
                    source = row_get_default r ''source'' (PStr []),
                    created_at = row_get_default r ''created_at'' (PStr []),
                    embedding = emb\<rparr>))"

fun stage ::
  "'f pyops \<Rightarrow> int set \<Rightarrow> 'f row list \<Rightarrow> int \<Rightarrow> 'f chunk list \<Rightarrow> error + (int \<times> 'f chunk list)" where
  "stage ops existing [] skipped to_insert = Inr (skipped, to_insert)"
| "stage ops existing (r # page) skipped to_insert =
     (let rid = row_get r ''id'' in
      if rid = PNone then stage ops existing page skipped to_insert
      else (case py_int ops rid of
              Inl e \<Rightarrow> Inl e
            | Inr rid_int \<Rightarrow>
                if rid_int \<in> existing then stage ops existing page (skipped + 1) to_insert
                else (case make_chunk ops r rid_int of
                        Inl e \<Rightarrow> Inl e
                      | Inr c \<Rightarrow> stage ops existing page skipped (to_insert @ [c]))))"

text \<open>
  One iteration of the \<^verbatim>\<open>while\<close> loop after the page has been fetched and found non-empty
  (lines 155-188). The result is the table state and the counters \<open>skipped\<close> and \<open>inserted\<close>.
\<close>

definition migrate_page ::
  "'f pyops \<Rightarrow> ('t, 'f) tidb_client \<Rightarrow> bool \<Rightarrow> 't \<Rightarrow> 'f row list \<Rightarrow> int \<Rightarrow> int \<Rightarrow>
   error + ('t \<times> int \<times> int)" where
  "migrate_page ops tidb dry_run table page skipped inserted =
     (case row_ids ops page of
        Inl e \<Rightarrow> Inl e
      | Inr page_ids \<Rightarrow>
          (case existing_ids_in_tidb ops tidb table page_ids of
             Inl e \<Rightarrow> Inl e
           | Inr existing \<Rightarrow>
               (case stage ops existing page skipped [] of
                  Inl e \<Rightarrow> Inl e
                | Inr (skipped', to_insert) \<Rightarrow>
                    if to_insert = [] then Inr (table, skipped', inserted)
                    else if dry_run then Inr (table, skipped', inserted + int (length to_insert))
                    else (case bulk_insert tidb table to_insert of
                            Inl e \<Rightarrow> Inl e
                          | Inr table' \<Rightarrow>
                              Inr (table', skipped', inserted + int (length to_insert))))))"

text \<open>
  The \<^verbatim>\<open>while True\<close> loop (lines 139-188). It ends when a fetched page is empty; a source
  that never returns an empty page keeps it running, and then the model's value is \<open>None\<close>.
  A completed run is \<open>Some (Inr (table, scanned, skipped, inserted))\<close>, a run ended by an
  exception is \<open>Some (Inl e)\<close>.
\<close>

partial_function (option) migrate_pages ::
  "'f pyops \<Rightarrow> 'f milvus_client \<Rightarrow> ('t, 'f) tidb_client \<Rightarrow> string \<Rightarrow> int \<Rightarrow> int option \<Rightarrow> int \<Rightarrow>
   bool \<Rightarrow> int \<Rightarrow> int \<Rightarrow> int \<Rightarrow> int \<Rightarrow> 't \<Rightarrow> (error + ('t \<times> int \<times> int \<times> int)) option" where
  "migrate_pages ops milvus tidb collection start end page_size dry_run
       offset scanned skipped inserted table =
     (case fetch_milvus_page milvus collection start end page_size offset of
        Inl e \<Rightarrow> Some (Inl e)
      | Inr page \<Rightarrow>
          if page = [] then Some (Inr (table, scanned, skipped, inserted))
          else (case migrate_page ops tidb dry_run table page skipped inserted of
                  Inl e \<Rightarrow> Some (Inl e)
                | Inr (table', skipped', inserted') \<Rightarrow>
                    migrate_pages ops milvus tidb collection start end page_size dry_run
                      (offset + int (length page)) (scanned + int (length page))
                      skipped' inserted' table'))"

declare migrate_pages.simps [code]

text \<open>
  The declared dimension of the source's embedding field (lines 119-121), 1536 when the
  description has none.
\<close>

definition dict_get :: "'f pyval \<Rightarrow> string \<Rightarrow> 'f pyval \<Rightarrow> error + 'f pyval" where
  "dict_get d k dflt =
     (case d of
        PDict kvs \<Rightarrow> Inr (case map_of kvs k of None \<Rightarrow> dflt | Some v \<Rightarrow> v)
      | _ \<Rightarrow> Inl AttributeError)"

fun find_embedding_field :: "'f pyval list \<Rightarrow> error + 'f pyval" where
  "find_embedding_field [] = Inr PNone"
| "find_embedding_field (f # fs) =
     (case dict_get f ''name'' PNone of
        Inl e \<Rightarrow> Inl e
      | Inr n \<Rightarrow> if n = PStr ''embedding'' then Inr f else find_embedding_field fs)"

definition embedding_dim_of :: "'f pyops \<Rightarrow> 'f pyval \<Rightarrow> error + int" where
  "embedding_dim_of ops desc =
     (case dict_get desc ''fields'' PNone of
        Inl e \<Rightarrow> Inl e
      | Inr fv \<Rightarrow>
          (case py_list (if py_truthy ops fv then fv else PList []) of
             Inl e \<Rightarrow> Inl e
           | Inr field_list \<Rightarrow>
               (case find_embedding_field field_list of
                  Inl e \<Rightarrow> Inl e
                | Inr ef \<Rightarrow>
                    (case dict_get (if py_truthy ops ef then ef else PDict []) ''params'' (PDict []) of
                       Inl e \<Rightarrow> Inl e
                     | Inr params \<Rightarrow>
                         (case dict_get params ''dim'' (PInt 1536) of
                            Inl e \<Rightarrow> Inl e
                          | Inr d \<Rightarrow> py_int ops d)))))"

text \<open>Opening the destination table, creating it when it is absent (lines 123-130).\<close>

definition resolve_table :: "('t, 'f) tidb_client \<Rightarrow> string \<Rightarrow> int \<Rightarrow> error + 't" where
  "resolve_table tidb tidb_table embedding_dim =
     (case has_table tidb tidb_table of
        Inl e \<Rightarrow> Inl e
      | Inr present \<Rightarrow>
          if \<not> present then create_table tidb tidb_table embedding_dim
          else (case open_table tidb tidb_table of
                  Inl e \<Rightarrow> Inl e
                | Inr None \<Rightarrow> create_table tidb tidb_table embedding_dim
                | Inr (Some table) \<Rightarrow> Inr table))"

text \<open>Lines 111-130: both connections, the collection check and the destination table.\<close>

definition prepare ::
  "('t, 'f) world \<Rightarrow> string \<Rightarrow> string \<Rightarrow> bool \<Rightarrow>
   error + ('f milvus_client \<times> ('t, 'f) tidb_client \<times> 't)" where
  "prepare w milvus_collection tidb_table enable_ssl =
     (case milvus_client_of w of
        Inl e \<Rightarrow> Inl e
      | Inr milvus \<Rightarrow>
          (case tidb_client_of w enable_ssl of
             Inl e \<Rightarrow> Inl e
           | Inr tidb \<Rightarrow>
               (case has_collection milvus milvus_collection of
                  Inl e \<Rightarrow> Inl e
                | Inr found \<Rightarrow>
                    if \<not> found
                    then Inl (ClickException (''Milvus collection not found: '' @ milvus_collection))
                    else (case load_collection milvus milvus_collection of
                            Inl e \<Rightarrow> Inl e
                          | Inr u \<Rightarrow>
                              (case describe_collection milvus milvus_collection of
                                 Inl e \<Rightarrow> Inl e
                               | Inr desc \<Rightarrow>
                                   (case embedding_dim_of (builtins w) desc of
                                      Inl e \<Rightarrow> Inl e
                                    | Inr embedding_dim \<Rightarrow>
                                        (case resolve_table tidb tidb_table embedding_dim of
                                           Inl e \<Rightarrow> Inl e
                                         | Inr table \<Rightarrow> Inr (milvus, tidb, table))))))))"

definition migrate_range ::
  "('t, 'f) world \<Rightarrow> string \<Rightarrow> string \<Rightarrow> int \<Rightarrow> int option \<Rightarrow> int \<Rightarrow> bool \<Rightarrow> bool \<Rightarrow>
   (error + ('t \<times> int \<times> int \<times> int)) option" where
  "migrate_range w milvus_collection tidb_table start end page_size enable_ssl dry_run =
     (case prepare w milvus_collection tidb_table enable_ssl of
        Inl e \<Rightarrow> Some (Inl e)
      | Inr (milvus, tidb, table) \<Rightarrow>
          migrate_pages (builtins w) milvus tidb milvus_collection start end page_size dry_run
            0 0 0 0 table)"

text \<open>
  The command (lines 203-227). Its result is the final table state and the line it prints.
\<close>

definition done_message ::
  "string \<Rightarrow> string \<Rightarrow> int \<Rightarrow> int option \<Rightarrow> int \<Rightarrow> int \<Rightarrow> int \<Rightarrow> string" where
  "done_message milvus_collection tidb_table start end scanned skipped inserted =
     ''Done. scanned='' @ show_int scanned @ '' skipped_existing='' @ show_int skipped
       @ '' inserted='' @ show_int inserted @ '' (milvus_collection='' @ milvus_collection
       @ '', tidb_table='' @ tidb_table @ '', range=['' @ show_int start @ '',''
       @ (case end of None \<Rightarrow> ''end'' | Some e \<Rightarrow> show_int e) @ ''))''"

definition main ::
  "('t, 'f) world \<Rightarrow> string \<Rightarrow> string \<Rightarrow> int \<Rightarrow> int option \<Rightarrow> int \<Rightarrow> bool \<Rightarrow> bool \<Rightarrow>
   (error + ('t \<times> string)) option" where
  "main w milvus_collection tidb_table start end page_size ssl dry_run =
     (if (case end of None \<Rightarrow> False | Some e \<Rightarrow> e < start)
      then Some (Inl (ClickException ''--end must be >= --start''))
      else (case migrate_range w milvus_collection tidb_table start end page_size ssl dry_run of
              None \<Rightarrow> None
            | Some (Inl e) \<Rightarrow> Some (Inl e)
            | Some (Inr (table, scanned, skipped, inserted)) \<Rightarrow>
                Some (Inr (table,
                  done_message milvus_collection tidb_table start end scanned skipped inserted))))"

section \<open>The filter languages of the two stores\<close>

text \<open>
  The script hands both stores a filter as text. What the text means is decided by the
  stores, which are not part of the repository; the two evaluators below read exactly the
  fragments the script produces, and decimal integer literals as \<^verbatim>\<open>str\<close> prints them.
\<close>

definition char_digit :: "char \<Rightarrow> nat option" where
  "char_digit c = map_of (zip ''0123456789'' [0, 1, 2, 3, 4, 5, 6, 7, 8, 9]) c"

fun parse_digits :: "nat \<Rightarrow> string \<Rightarrow> nat option" where
  "parse_digits acc [] = Some acc"
| "parse_digits acc (c # cs) =
     (case char_digit c of None \<Rightarrow> None | Some d \<Rightarrow> parse_digits (10 * acc + d) cs)"

definition parse_nat :: "string \<Rightarrow> nat option" where
  "parse_nat s = (if s = [] then None else parse_digits 0 s)"

definition parse_int :: "string \<Rightarrow> int option" where
  "parse_int s =
     (case s of
        [] \<Rightarrow> None
      | c # cs \<Rightarrow>
          if c = CHR ''-'' then map_option (\<lambda>n. - int n) (parse_nat cs)
          else map_option int (parse_nat s))"

fun split_on :: "'a \<Rightarrow> 'a list \<Rightarrow> 'a list list" where
  "split_on sep [] = [[]]"
| "split_on sep (x # xs) =
     (if x = sep then [] # split_on sep xs
      else (case split_on sep xs of [] \<Rightarrow> [[x]] | w # ws \<Rightarrow> (x # w) # ws))"

text \<open>
  Modelled from the spec: the source store's filter expression (the Milvus client is an
  external library). The spec gives the filter as the conjunction of \<^verbatim>\<open>id >= N\<close> and,
  optionally, \<^verbatim>\<open>id < M\<close>: tokens are separated by blanks, clauses by \<^verbatim>\<open>&&\<close>, each clause
  compares the field \<^verbatim>\<open>id\<close> with an integer literal, and a row is admitted when every clause
  holds. \<open>filter_admits flt i\<close> is \<open>None\<close> for a text outside this fragment.
\<close>

fun cmp_holds :: "string \<Rightarrow> int \<Rightarrow> int \<Rightarrow> bool option" where
  "cmp_holds opr i n =
     (if opr = ''>='' then Some (i \<ge> n) else if opr = ''<'' then Some (i < n)
      else if opr = ''>'' then Some (i > n) else if opr = ''<='' then Some (i \<le> n)
      else if opr = ''=='' then Some (i = n) else if opr = ''!='' then Some (i \<noteq> n)
      else None)"

fun clause_holds :: "string list \<Rightarrow> int \<Rightarrow> bool option" where
  "clause_holds [field, opr, lit] i =
     (if field = ''id'' then (case parse_int lit of None \<Rightarrow> None | Some n \<Rightarrow> cmp_holds opr i n)
      else None)"
| "clause_holds toks i = None"

definition filter_admits :: "string \<Rightarrow> int \<Rightarrow> bool option" where
  "filter_admits flt i =
     map_option (list_all (\<lambda>b. b))
       (those (map (\<lambda>cl. clause_holds cl i) (split_on ''&&'' (split_on CHR '' '' flt))))"

text \<open>
  Modelled from the spec: the destination's probe filter \<^verbatim>\<open>id IN (i1,i2,...)\<close> (the TiDB client
  is an external library); \<open>in_filter_ids\<close> reads the listed ids back.
\<close>

definition in_filter_ids :: "string \<Rightarrow> int list option" where
  "in_filter_ids flt =
     (if take 7 flt = ''id IN ('' \<and> drop (length flt - 1) flt = '')''
      then those (map parse_int (split_on CHR '','' (butlast (drop 7 flt))))
      else None)"

section \<open>In-memory stores\<close>

text \<open>
  Two stores to run the script against: a source over a fixed list of rows that serves
  \<^verbatim>\<open>limit\<close> rows from \<^verbatim>\<open>offset\<close> among those its filter admits (a row without an integer id
  is served as it is), and a destination that keeps the inserted records in a list, answers
  \<^verbatim>\<open>id IN (...)\<close> and rejects a batch that would repeat the primary key \<^verbatim>\<open>id\<close>, as the
  table declared in lines 48-60 does. The builtins \<open>ideal_ops\<close> take the reals for floats.
\<close>

definition ideal_ops :: "real pyops" where
  "ideal_ops =
     \<lparr>int_of_float = (\<lambda>x. Inr (if x < 0 then \<lceil>x\<rceil> else \<lfloor>x\<rfloor>)),
      int_of_str = (\<lambda>s. case parse_int s of None \<Rightarrow> Inl ValueError | Some i \<Rightarrow> Inr i),
      float_of_int = (\<lambda>i. Inr (of_int i)),
      float_of_str = (\<lambda>s. case parse_int s of None \<Rightarrow> Inl ValueError | Some i \<Rightarrow> Inr (of_int i)),
      float_truthy = (\<lambda>x. x \<noteq> 0)\<rparr>"

definition row_admitted :: "(int \<Rightarrow> bool option) \<Rightarrow> 'f row \<Rightarrow> bool" where
  "row_admitted p r = (case r ''id'' of Some (PInt i) \<Rightarrow> p i = Some True | _ \<Rightarrow> True)"

definition snapshot_milvus :: "'f pyval \<Rightarrow> 'f row list \<Rightarrow> 'f milvus_client" where
  "snapshot_milvus desc rows =
     \<lparr>has_collection = (\<lambda>c. Inr True),
      load_collection = (\<lambda>c. Inr ()),
      describe_collection = (\<lambda>c. Inr desc),
      mquery = (\<lambda>c flt fields limit offset.
         if filter_admits flt 0 = None then Inl (StoreError ''invalid expression'')
         else Inr (take (nat limit) (drop (nat offset) (filter (row_admitted (filter_admits flt)) rows))))\<rparr>"

definition chunk_row :: "'f chunk \<Rightarrow> 'f row" where
  "chunk_row c =
     [''id'' \<mapsto> PInt (chunk_id c), ''chunk_text'' \<mapsto> chunk_text c, ''doc_id'' \<mapsto> doc_id c,
      ''chunk_index'' \<mapsto> PInt (chunk_index c), ''source'' \<mapsto> source c,
      ''created_at'' \<mapsto> created_at c, ''embedding'' \<mapsto> PList (map PFloat (embedding c))]"

definition memory_tidb :: "'f chunk list \<Rightarrow> ('f chunk list, 'f) tidb_client" where
  "memory_tidb stored =
     \<lparr>has_table = (\<lambda>n. Inr True),
      create_table = (\<lambda>n d. Inr []),
      open_table = (\<lambda>n. Inr (Some stored)),
      tquery = (\<lambda>t flt. case in_filter_ids flt of
                          None \<Rightarrow> Inl (StoreError ''syntax error'')
                        | Some ids \<Rightarrow> Inr (map chunk_row (filter (\<lambda>c. chunk_id c \<in> set ids) t))),
      bulk_insert = (\<lambda>t batch.
         if distinct (map chunk_id (t @ batch)) then Inr (t @ batch)
         else Inl (StoreError ''Duplicate entry for key PRIMARY''))\<rparr>"

definition memory_world :: "real row list \<Rightarrow> real chunk list \<Rightarrow> (real chunk list, real) world" where
  "memory_world rows stored =
     \<lparr>getenv = [''MILVUS_HOST'' \<mapsto> ''localhost'', ''MILVUS_GRPC_PORT'' \<mapsto> ''19530'',
                ''DB_HOST'' \<mapsto> ''localhost'', ''DB_PORT'' \<mapsto> ''4000'',
                ''DB_USERNAME'' \<mapsto> ''root'', ''DB_DATABASE'' \<mapsto> ''test''],
      connect_milvus = (\<lambda>uri token. Inr (snapshot_milvus (PDict []) rows)),
      connect_tidb = (\<lambda>host port username password database enable_ssl ensure_db.
                        Inr (memory_tidb stored)),
      builtins = ideal_ops\<rparr>"

definition id_row :: "int \<Rightarrow> real row" where
  "id_row i = [''id'' \<mapsto> PInt i]"

definition null_id_row :: "real row" where
  "null_id_row = [''id'' \<mapsto> PNone, ''chunk_text'' \<mapsto> PStr ''orphan'']"

text \<open>The record the staging loop builds from \<open>id_row i\<close>.\<close>

definition bare_chunk :: "int \<Rightarrow> real chunk" where
  "bare_chunk i = \<lparr>chunk_id = i, chunk_text = PStr [], doc_id = PStr [], chunk_index = 0,
                   source = PStr [], created_at = PStr [], embedding = []\<rparr>"

section \<open>The pages of a scan\<close>

text \<open>
  \<open>scan milvus collection start end page_size offset pages\<close>: fetching from \<open>offset\<close> on, the
  source returns the non-empty pages \<open>pages\<close>, one after the other, and then an empty page.
  These are the pages a run that starts at \<open>offset\<close> fetches. \<open>process_pages\<close> is the loop
  body applied to such a list of pages.
\<close>

inductive scan ::
  "'f milvus_client \<Rightarrow> string \<Rightarrow> int \<Rightarrow> int option \<Rightarrow> int \<Rightarrow> int \<Rightarrow> 'f row list list \<Rightarrow> bool"
  for milvus collection start "end" page_size where
  scan_done:
    "fetch_milvus_page milvus collection start end page_size offset = Inr [] \<Longrightarrow>
     scan milvus collection start end page_size offset []"
| scan_page:
    "fetch_milvus_page milvus collection start end page_size offset = Inr page \<Longrightarrow>
     page \<noteq> [] \<Longrightarrow>
     scan milvus collection start end page_size (offset + int (length page)) pages \<Longrightarrow>
     scan milvus collection start end page_size offset (page # pages)"

fun process_pages ::
  "'f pyops \<Rightarrow> ('t, 'f) tidb_client \<Rightarrow> bool \<Rightarrow> 't \<Rightarrow> 'f row list list \<Rightarrow> int \<Rightarrow> int \<Rightarrow>
   error + ('t \<times> int \<times> int)" where
  "process_pages ops tidb dry_run table [] skipped inserted = Inr (table, skipped, inserted)"
| "process_pages ops tidb dry_run table (page # pages) skipped inserted =
     (case migrate_page ops tidb dry_run table page skipped inserted of
        Inl e \<Rightarrow> Inl e
      | Inr (table', skipped', inserted') \<Rightarrow>
          process_pages ops tidb dry_run table' pages skipped' inserted')"

definition with_scanned :: "int \<Rightarrow> error + ('t \<times> int \<times> int) \<Rightarrow> error + ('t \<times> int \<times> int \<times> int)" where
  "with_scanned n r = (case r of Inl e \<Rightarrow> Inl e | Inr (t, sk, ins) \<Rightarrow> Inr (t, n, sk, ins))"

text \<open>
  The ids of a page, and the two properties of a destination that the re-run and dry-run
  results rest on: a probe answers with exactly the candidate ids the table holds, and a
  bulk insert that succeeds adds exactly the ids of its batch. \<open>ids_of\<close> gives the ids a
  table state holds.
\<close>

definition page_id_set :: "'f pyops \<Rightarrow> 'f row list \<Rightarrow> int set" where
  "page_id_set ops page = (case row_ids ops page of Inl e \<Rightarrow> {} | Inr is \<Rightarrow> set is)"

definition probe_exact :: "'f pyops \<Rightarrow> ('t, 'f) tidb_client \<Rightarrow> ('t \<Rightarrow> int set) \<Rightarrow> bool" where
  "probe_exact ops tidb ids_of \<longleftrightarrow>
     (\<forall>table ids. existing_ids_in_tidb ops tidb table ids = Inr (set ids \<inter> ids_of table))"

definition insert_adds :: "('t, 'f) tidb_client \<Rightarrow> ('t \<Rightarrow> int set) \<Rightarrow> bool" where
  "insert_adds tidb ids_of \<longleftrightarrow>
     (\<forall>table batch table'. bulk_insert tidb table batch = Inr table' \<longrightarrow>
        ids_of table' = ids_of table \<union> chunk_id ` set batch)"

section \<open>Decimal literals are read back\<close>

lemma char_digit_digit_char: "d < 10 \<Longrightarrow> char_digit (digit_char d) = Some d"
proof -
  assume "d < 10"
  then have "d \<in> {0,1,2,3,4,5,6,7,8,9}" by auto
  then show ?thesis by (auto simp: digit_char_def char_digit_def)
qed

lemma parse_digits_snoc:
  "parse_digits acc (cs @ [c]) =
     (case parse_digits acc cs of None \<Rightarrow> None
      | Some a \<Rightarrow> (case char_digit c of None \<Rightarrow> None | Some d \<Rightarrow> Some (10 * a + d)))"
  by (induction cs arbitrary: acc) (auto split: option.splits)

lemma parse_digits_show_nat: "parse_digits 0 (show_nat n) = Some n"
proof (induction n rule: show_nat.induct)
  case (1 n)
  show ?case
  proof (cases "n < 10")
    case True
    then show ?thesis by (subst show_nat.simps) (simp add: char_digit_digit_char)
  next
    case False
    then have "parse_digits 0 (show_nat (n div 10)) = Some (n div 10)" using 1 by simp
    then show ?thesis using False
      by (subst show_nat.simps) (simp add: parse_digits_snoc char_digit_digit_char)
  qed
qed

section \<open>The loop and the pages it fetches\<close>

text \<open>
  A run that starts at an offset from which the scan is \<open>pages\<close> returns what
  \<open>process_pages\<close> computes on \<open>pages\<close>, and a run that completes has such a scan.
\<close>

lemma scan_run:
  "scan milvus collection start end page_size offset pages \<Longrightarrow>
   migrate_pages ops milvus tidb collection start end page_size dry_run
       offset scanned skipped inserted table =
     Some (with_scanned (scanned + int (length (concat pages)))
            (process_pages ops tidb dry_run table pages skipped inserted))"
proof (induction arbitrary: scanned skipped inserted table rule: scan.induct)
  case (scan_done offset)
  then show ?case by (subst migrate_pages.simps) (simp add: with_scanned_def)
next
  case (scan_page offset page pages)
  show ?case
  proof (cases "migrate_page ops tidb dry_run table page skipped inserted")
    case (Inl e)
    then show ?thesis using scan_page.hyps(1,2)
      by (subst migrate_pages.simps) (simp add: with_scanned_def)
  next
    case (Inr r)
    obtain t' sk' ins' where r: "r = (t', sk', ins')" by (cases r) auto
    show ?thesis using scan_page.hyps(1,2) Inr r
      by (subst migrate_pages.simps) (simp add: scan_page.IH add.assoc)
  qed
qed

lemma run_scan:
  assumes "migrate_pages (ops :: 'f pyops) milvus (tidb :: ('t, 'f) tidb_client) collection start end
             page_size dry_run offset scanned skipped inserted table = Some (Inr r)"
  shows "\<exists>pages. scan milvus collection start end page_size offset pages"
proof -
  have "\<forall>r'. (Inr r :: error + _) = Inr r' \<longrightarrow> (\<exists>pages. scan milvus collection start end page_size offset pages)"
  proof (rule migrate_pages.raw_induct
      [where P = "\<lambda>(ops :: 'f pyops) milvus (tidb :: ('t, 'f) tidb_client) collection start end page_size dry_run offset scanned
                    skipped inserted table y.
                 \<forall>r. y = Inr r \<longrightarrow> (\<exists>pages. scan milvus collection start end page_size offset pages)",
       OF _ assms], goal_cases)
    case (1 loop ops milvus tidb collection start "end" page_size dry_run offset scanned skipped
        inserted table y)
    show ?case
    proof (intro allI impI)
      fix r assume y: "y = Inr r"
      show "\<exists>pages. scan milvus collection start end page_size offset pages"
      proof (cases "fetch_milvus_page milvus collection start end page_size offset")
        case (Inl e)
        then show ?thesis using 1(2) y by simp
      next
        case (Inr page)
        show ?thesis
        proof (cases "page = []")
          case True
          then show ?thesis using Inr by (auto intro: scan.intros)
        next
          case False
          then obtain t' sk' ins' where
            rec: "loop ops milvus tidb collection start end page_size dry_run
                      (offset + int (length page)) (scanned + int (length page)) sk' ins' t' = Some y"
            using 1(2) Inr y by (auto split: sum.splits)
          from 1(1)[OF rec] y obtain pages where
            "scan milvus collection start end page_size (offset + int (length page)) pages" by blast
          then show ?thesis using Inr False by (auto intro: scan.intros)
        qed
      qed
    qed
  qed
  then show ?thesis by blast
qed

section \<open>Counting within a page and over a run\<close>

lemma row_get_id_None: "row_get r ''id'' = PNone \<longleftrightarrow> \<not> has_id r"
  by (simp add: row_get_def has_id_def split: option.splits)

lemma map_res_length: "map_res f xs = Inr ys \<Longrightarrow> length ys = length xs"
  by (induction xs arbitrary: ys) (auto split: sum.splits)


lemma row_ids_length: "row_ids ops page = Inr is \<Longrightarrow> length is = length (filter has_id page)"
  by (simp add: row_ids_def map_res_length)

lemma row_ids_Cons:
  "row_ids ops (r # page) =
     (if has_id r
      then (case py_int ops (row_get r ''id'') of
              Inl e \<Rightarrow> Inl e
            | Inr i \<Rightarrow> (case row_ids ops page of Inl e \<Rightarrow> Inl e | Inr is \<Rightarrow> Inr (i # is)))
      else row_ids ops page)"
  unfolding row_ids_def by simp

lemma row_ids_Nil: "row_ids ops [] = Inr []"
  by (simp add: row_ids_def)

lemma make_chunk_id: "make_chunk ops r i = Inr c \<Longrightarrow> chunk_id c = i"
  by (auto simp: make_chunk_def Let_def split: sum.splits)

lemma stage_count:
  "stage ops existing page skipped to_insert = Inr (skipped', to_insert') \<Longrightarrow>
   skipped' + int (length to_insert') + int (length (filter (\<lambda>r. \<not> has_id r) page))
     = skipped + int (length to_insert) + int (length page)"
proof (induction page arbitrary: skipped to_insert)
  case Nil
  then show ?case by simp
next
  case (Cons r page)
  show ?case
  proof (cases "has_id r")
    case False
    then have "stage ops existing page skipped to_insert = Inr (skipped', to_insert')"
      using Cons.prems by (simp add: row_get_id_None)
    from Cons.IH[OF this] False show ?thesis by simp
  next
    case True
    then show ?thesis using Cons.prems Cons.IH
      by (auto simp: row_get_id_None Let_def split: sum.splits if_splits)
  qed
qed

lemma stage_skipped_mono:
  "stage ops existing page skipped to_insert = Inr (skipped', to_insert') \<Longrightarrow>
   skipped \<le> skipped' \<and> length to_insert \<le> length to_insert'"
proof (induction page arbitrary: skipped to_insert)
  case Nil
  then show ?case by simp
next
  case (Cons r page)
  show ?case
  proof (cases "has_id r")
    case False
    then have "stage ops existing page skipped to_insert = Inr (skipped', to_insert')"
      using Cons.prems by (simp add: row_get_id_None)
    from Cons.IH[OF this] show ?thesis .
  next
    case True
    then show ?thesis using Cons.prems Cons.IH
      by (fastforce simp: row_get_id_None Let_def split: sum.splits if_splits)
  qed
qed

lemma migrate_page_count:
  assumes "migrate_page ops tidb dry_run table page skipped inserted = Inr (table', skipped', inserted')"
  shows "skipped' + inserted' + int (length (filter (\<lambda>r. \<not> has_id r) page))
           = skipped + inserted + int (length page)"
proof -
  from assms obtain ids existing to_insert where
    st: "stage ops existing page skipped [] = Inr (skipped', to_insert)"
    and ins: "inserted' = inserted + int (length to_insert)"
    by (auto simp: migrate_page_def split: sum.splits if_splits)
  from stage_count[OF st] ins show ?thesis by simp
qed

lemma migrate_page_mono:
  assumes "migrate_page ops tidb dry_run table page skipped inserted = Inr (table', skipped', inserted')"
  shows "skipped \<le> skipped' \<and> inserted \<le> inserted'"
proof -
  from assms obtain ids existing to_insert where
    st: "stage ops existing page skipped [] = Inr (skipped', to_insert)"
    and ins: "inserted' = inserted + int (length to_insert)"
    by (auto simp: migrate_page_def split: sum.splits if_splits)
  from stage_skipped_mono[OF st] ins show ?thesis by simp
qed

lemma process_pages_count:
  "process_pages ops tidb dry_run table pages skipped inserted = Inr (table', skipped', inserted') \<Longrightarrow>
   skipped' + inserted' + int (length (filter (\<lambda>r. \<not> has_id r) (concat pages)))
     = skipped + inserted + int (length (concat pages))"
proof (induction pages arbitrary: table skipped inserted)
  case Nil
  then show ?case by simp
next
  case (Cons page pages)
  from Cons.prems obtain t1 sk1 ins1 where
    mp: "migrate_page ops tidb dry_run table page skipped inserted = Inr (t1, sk1, ins1)"
    and rest: "process_pages ops tidb dry_run t1 pages sk1 ins1 = Inr (table', skipped', inserted')"
    by (auto split: sum.splits)
  from migrate_page_count[OF mp] Cons.IH[OF rest] show ?case by simp
qed

lemma process_pages_mono:
  "process_pages ops tidb dry_run table pages skipped inserted = Inr (table', skipped', inserted') \<Longrightarrow>
   skipped \<le> skipped' \<and> inserted \<le> inserted'"
proof (induction pages arbitrary: table skipped inserted)
  case Nil
  then show ?case by simp
next
  case (Cons page pages)
  from Cons.prems obtain t1 sk1 ins1 where
    mp: "migrate_page ops tidb dry_run table page skipped inserted = Inr (t1, sk1, ins1)"
    and rest: "process_pages ops tidb dry_run t1 pages sk1 ins1 = Inr (table', skipped', inserted')"
    by (auto split: sum.splits)
  from migrate_page_mono[OF mp] Cons.IH[OF rest] show ?case by simp
qed

lemma completed_run:
  assumes "migrate_pages ops milvus tidb collection start end page_size dry_run
             offset scanned skipped inserted table = Some (Inr (table', scanned', skipped', inserted'))"
  shows "\<exists>pages. scan milvus collection start end page_size offset pages \<and>
           scanned' = scanned + int (length (concat pages)) \<and>
           process_pages ops tidb dry_run table pages skipped inserted = Inr (table', skipped', inserted')"
proof -
  from run_scan[OF assms] obtain pages where sc: "scan milvus collection start end page_size offset pages"
    by blast
  from scan_run[OF sc, of ops tidb dry_run scanned skipped inserted table] assms
  have "with_scanned (scanned + int (length (concat pages)))
          (process_pages ops tidb dry_run table pages skipped inserted)
        = Inr (table', scanned', skipped', inserted')" by simp
  then have "scanned' = scanned + int (length (concat pages)) \<and>
     process_pages ops tidb dry_run table pages skipped inserted = Inr (table', skipped', inserted')"
    by (auto simp: with_scanned_def split: sum.splits)
  with sc show ?thesis by blast
qed

lemma migrate_range_unfold:
  "prepare w mc tt ssl = Inr (milvus, tidb, table) \<Longrightarrow>
   migrate_range w mc tt start end page_size ssl dry_run =
     migrate_pages (builtins w) milvus tidb mc start end page_size dry_run 0 0 0 0 table"
  by (simp add: migrate_range_def)

lemma run_accounting:
  assumes "prepare w mc tt ssl = Inr (milvus, tidb, table)"
    and "migrate_range w mc tt start end page_size ssl dry_run
           = Some (Inr (table', scanned, skipped, inserted))"
  shows "\<exists>pages. scan milvus mc start end page_size 0 pages \<and>
           scanned = int (length (concat pages)) \<and>
           process_pages (builtins w) tidb dry_run table pages 0 0 = Inr (table', skipped, inserted) \<and>
           scanned = skipped + inserted + int (length (filter (\<lambda>r. \<not> has_id r) (concat pages)))"
proof -
  from assms have "migrate_pages (builtins w) milvus tidb mc start end page_size dry_run 0 0 0 0 table
      = Some (Inr (table', scanned, skipped, inserted))"
    by (simp add: migrate_range_unfold)
  from completed_run[OF this] obtain pages where
    sc: "scan milvus mc start end page_size 0 pages"
    and n: "scanned = int (length (concat pages))"
    and pp: "process_pages (builtins w) tidb dry_run table pages 0 0 = Inr (table', skipped, inserted)"
    by auto
  from process_pages_count[OF pp] n sc pp show ?thesis by auto
qed

section \<open>The in-memory stores\<close>

lemma getenv_memory_world:
  "getenv (memory_world rows stored) ''MILVUS_HOST'' = Some ''localhost''"
  "getenv (memory_world rows stored) ''MILVUS_GRPC_PORT'' = Some ''19530''"
  "getenv (memory_world rows stored) ''DB_HOST'' = Some ''localhost''"
  "getenv (memory_world rows stored) ''DB_PORT'' = Some ''4000''"
  "getenv (memory_world rows stored) ''DB_USERNAME'' = Some ''root''"
  "getenv (memory_world rows stored) ''DB_PASSWORD'' = None"
  "getenv (memory_world rows stored) ''DB_DATABASE'' = Some ''test''"
  by (simp_all add: memory_world_def)

lemma int_of_str_ideal_4000: "int_of_str ideal_ops ''4000'' = Inr 4000"
  by (simp add: ideal_ops_def parse_int_def parse_nat_def char_digit_def)

lemma embedding_dim_of_empty: "embedding_dim_of ops (PDict []) = Inr 1536"
  by (simp add: embedding_dim_of_def dict_get_def)

lemma prepare_memory_world:
  "prepare (memory_world rows stored) mc tt ssl
     = Inr (snapshot_milvus (PDict []) rows, memory_tidb stored, stored)"
proof -
  have m: "milvus_client_of (memory_world rows stored) = Inr (snapshot_milvus (PDict []) rows)"
    by (simp add: milvus_client_of_def getenv_memory_world env_missing_def Let_def)
       (simp add: memory_world_def)
  have b: "builtins (memory_world rows stored) = ideal_ops"
    by (simp add: memory_world_def)
  have t: "tidb_client_of (memory_world rows stored) ssl = Inr (memory_tidb stored)"
    by (simp add: tidb_client_of_def getenv_memory_world env_missing_def env_str_def Let_def b
          int_of_str_ideal_4000)
       (simp add: memory_world_def)
  have r: "resolve_table (memory_tidb stored) tt 1536 = Inr stored"
    by (simp add: resolve_table_def memory_tidb_def)
  have s: "has_collection (snapshot_milvus (PDict []) rows) mc = Inr True"
    "load_collection (snapshot_milvus (PDict []) rows) mc = Inr ()"
    "describe_collection (snapshot_milvus (PDict []) rows) mc = Inr (PDict [])"
    by (simp_all add: snapshot_milvus_def)
  show ?thesis
    by (simp add: prepare_def m t b r s embedding_dim_of_empty)
qed

section \<open>The claims\<close>

subsection \<open>Counters\<close>

text \<open>
  Claim C2, as amended. The claim says that every completed run ends with
  \<open>scanned = skipped + inserted\<close>, rows without an id included. A row without an id is
  counted as scanned and as nothing else, so what holds for every completed run, in dry-run
  mode as in normal mode, is: the rows scanned are the rows of the fetched pages, and
  \<open>scanned = skipped + inserted + m\<close>, where \<open>m\<close> is the number of fetched rows whose id is
  missing or None.
\<close>

theorem counters_account_for_missing_ids:
  assumes "prepare w mc tt ssl = Inr (milvus, tidb, table)"
    and "migrate_range w mc tt start end page_size ssl dry_run
           = Some (Inr (table', scanned, skipped, inserted))"
  shows "\<exists>pages. scan milvus mc start end page_size 0 pages \<and>
           scanned = int (length (concat pages)) \<and>
           scanned = skipped + inserted + int (length (filter (\<lambda>r. \<not> has_id r) (concat pages)))"
  using run_accounting[OF assms] by blast

text \<open>
  A source of two rows, one with id 1 and one whose id is None, and an empty destination:
  both modes end with scanned 2, skipped 0, inserted 1.
\<close>

theorem counters_equation_counterexample:
  "migrate_range (memory_world [id_row 1, null_id_row] []) ''chunk'' ''chunks'' 0 None 200 True True
     = Some (Inr ([], 2, 0, 1)) \<and>
   migrate_range (memory_world [id_row 1, null_id_row] []) ''chunk'' ''chunks'' 0 None 200 True False
     = Some (Inr ([\<lparr>chunk_id = 1, chunk_text = PStr [], doc_id = PStr [], chunk_index = 0,
                    source = PStr [], created_at = PStr [], embedding = []\<rparr>], 2, 0, 1)) \<and>
   (2::int) \<noteq> 0 + 1"
  by code_simp

theorem counters_account_for_missing_ids_witness:
  "prepare (memory_world [id_row 1, null_id_row] []) ''chunk'' ''chunks'' True
     = Inr (snapshot_milvus (PDict []) [id_row 1, null_id_row], memory_tidb [], []) \<and>
   migrate_range (memory_world [id_row 1, null_id_row] []) ''chunk'' ''chunks'' 0 None 200 True True
     = Some (Inr ([], 2, 0, 1)) \<and>
   (\<exists>pages. scan (snapshot_milvus (PDict []) [id_row 1, null_id_row]) ''chunk'' 0 None 200 0 pages \<and>
      (2::int) = int (length (concat pages)) \<and>
      (2::int) = 0 + 1 + int (length (filter (\<lambda>r. \<not> has_id r) (concat pages))))"
proof -
  have h1: "prepare (memory_world [id_row 1, null_id_row] []) ''chunk'' ''chunks'' True
     = Inr (snapshot_milvus (PDict []) [id_row 1, null_id_row], memory_tidb [], [])"
    by (rule prepare_memory_world)
  have h2: "migrate_range (memory_world [id_row 1, null_id_row] []) ''chunk'' ''chunks'' 0 None 200 True True
     = Some (Inr ([], 2, 0, 1))"
    by code_simp
  from h1 h2 counters_account_for_missing_ids[OF h1 h2] show ?thesis by blast
qed

text \<open>
  Claim C3. For every completed run \<open>skipped + inserted \<le> scanned\<close>; the two sides are equal
  when every fetched row carries an id, and the inequality is strict only when some fetched
  row has none.
\<close>

theorem counter_conservation:
  assumes "prepare w mc tt ssl = Inr (milvus, tidb, table)"
    and "migrate_range w mc tt start end page_size ssl dry_run
           = Some (Inr (table', scanned, skipped, inserted))"
  shows "skipped + inserted \<le> scanned \<and>
         (\<exists>pages. scan milvus mc start end page_size 0 pages \<and>
            ((\<forall>r\<in>set (concat pages). has_id r) \<longrightarrow> scanned = skipped + inserted) \<and>
            (skipped + inserted < scanned \<longrightarrow> (\<exists>r\<in>set (concat pages). \<not> has_id r)))"
proof -
  from run_accounting[OF assms] obtain pages where
    sc: "scan milvus mc start end page_size 0 pages"
    and eq: "scanned = skipped + inserted + int (length (filter (\<lambda>r. \<not> has_id r) (concat pages)))"
    by blast
  have le: "skipped + inserted \<le> scanned" using eq by simp
  have all: "(\<forall>r\<in>set (concat pages). has_id r) \<longrightarrow> scanned = skipped + inserted"
  proof
    assume "\<forall>r\<in>set (concat pages). has_id r"
    then have "filter (\<lambda>r. \<not> has_id r) (concat pages) = []" by (simp add: filter_empty_conv)
    then show "scanned = skipped + inserted" using eq by simp
  qed
  have strict: "skipped + inserted < scanned \<longrightarrow> (\<exists>r\<in>set (concat pages). \<not> has_id r)"
    using all by auto
  from le sc all strict show ?thesis by blast
qed

theorem counter_conservation_witness:
  "prepare (memory_world [id_row 1, null_id_row] [] ) ''chunk'' ''chunks'' True
     = Inr (snapshot_milvus (PDict []) [id_row 1, null_id_row], memory_tidb [], []) \<and>
   migrate_range (memory_world [id_row 1, null_id_row] []) ''chunk'' ''chunks'' 0 None 1 True False
     = Some (Inr ([\<lparr>chunk_id = 1, chunk_text = PStr [], doc_id = PStr [], chunk_index = 0,
                    source = PStr [], created_at = PStr [], embedding = []\<rparr>], 2, 0, 1)) \<and>
   ((0::int) + 1 \<le> 2 \<and>
    (\<exists>pages. scan (snapshot_milvus (PDict []) [id_row 1, null_id_row]) ''chunk'' 0 None 1 0 pages \<and>
       ((\<forall>r\<in>set (concat pages). has_id r) \<longrightarrow> (2::int) = 0 + 1) \<and>
       ((0::int) + 1 < 2 \<longrightarrow> (\<exists>r\<in>set (concat pages). \<not> has_id r))))"
proof -
  have h1: "prepare (memory_world [id_row 1, null_id_row] []) ''chunk'' ''chunks'' True
     = Inr (snapshot_milvus (PDict []) [id_row 1, null_id_row], memory_tidb [], [])"
    by (rule prepare_memory_world)
  have h2: "migrate_range (memory_world [id_row 1, null_id_row] []) ''chunk'' ''chunks'' 0 None 1 True False
     = Some (Inr ([\<lparr>chunk_id = 1, chunk_text = PStr [], doc_id = PStr [], chunk_index = 0,
                    source = PStr [], created_at = PStr [], embedding = []\<rparr>], 2, 0, 1))"
    by code_simp
  from h1 h2 counter_conservation[OF h1 h2] show ?thesis by blast
qed

subsection \<open>Empty inputs\<close>

lemma tquery_bulk_update [simp]:
  "tquery (tidb\<lparr>bulk_insert := b\<rparr>) = tquery tidb"
  by simp

text \<open>
  Claim C6. When the first fetch returns an empty page, the run returns the counters
  \<open>(0, 0, 0)\<close> and the table as it was opened. The same holds with any query operation \<open>q\<close>
  and any insert operation \<open>b\<close> in place of the destination's, also ones that always raise:
  neither is called.
\<close>

theorem empty_source_range:
  assumes "prepare w mc tt ssl = Inr (milvus, tidb, table)"
    and "fetch_milvus_page milvus mc start end page_size 0 = Inr []"
  shows "migrate_range w mc tt start end page_size ssl dry_run = Some (Inr (table, 0, 0, 0)) \<and>
         migrate_pages (builtins w) milvus (tidb\<lparr>tquery := q, bulk_insert := b\<rparr>)
             mc start end page_size dry_run 0 0 0 0 table = Some (Inr (table, 0, 0, 0))"
proof -
  have "\<And>td. migrate_pages (builtins w) milvus td mc start end page_size dry_run 0 0 0 0 table
          = Some (Inr (table, 0, 0, 0))"
    using assms(2) by (subst migrate_pages.simps) simp
  then show ?thesis using assms(1) by (simp add: migrate_range_unfold)
qed

lemma milvus_filter_5: "milvus_filter 5 None = ''id >= 5''"
  by (simp add: milvus_filter_def show_int_def show_nat.simps digit_char_def)

lemma filter_admits_ge5: "filter_admits ''id >= 5'' i = Some (5 \<le> i)"
  by (simp add: filter_admits_def parse_int_def parse_nat_def char_digit_def)

theorem empty_source_range_witness:
  "prepare (memory_world [id_row 1, id_row 2] []) ''chunk'' ''chunks'' True
     = Inr (snapshot_milvus (PDict []) [id_row 1, id_row 2], memory_tidb [], []) \<and>
   fetch_milvus_page (snapshot_milvus (PDict []) [id_row 1, id_row 2]) ''chunk'' 5 None 200 0 = Inr [] \<and>
   migrate_range (memory_world [id_row 1, id_row 2] []) ''chunk'' ''chunks'' 5 None 200 True False
     = Some (Inr ([], 0, 0, 0)) \<and>
   migrate_pages (builtins (memory_world [id_row 1, id_row 2] [])) (snapshot_milvus (PDict []) [id_row 1, id_row 2])
       ((memory_tidb [])\<lparr>tquery := (\<lambda>t f. Inl (StoreError ''down'')),
                          bulk_insert := (\<lambda>t b. Inl (StoreError ''down''))\<rparr>)
       ''chunk'' 5 None 200 False 0 0 0 0 [] = Some (Inr ([], 0, 0, 0))"
proof -
  have h1: "prepare (memory_world [id_row 1, id_row 2] []) ''chunk'' ''chunks'' True
     = Inr (snapshot_milvus (PDict []) [id_row 1, id_row 2], memory_tidb [], [])"
    by (rule prepare_memory_world)
  have h2: "fetch_milvus_page (snapshot_milvus (PDict []) [id_row 1, id_row 2]) ''chunk'' 5 None 200 0 = Inr []"
    by (simp add: fetch_milvus_page_def snapshot_milvus_def milvus_filter_5 filter_admits_ge5
          row_admitted_def id_row_def)
  from h1 h2 empty_source_range[OF h1 h2] show ?thesis by blast
qed

text \<open>
  Claim C7. For an empty list of candidate ids the prober returns the empty set, whatever
  the destination's query operation \<open>q\<close> is, also one that always raises: no query is issued.
  (For a non-empty list the query is issued: with a query operation that raises, the prober
  raises.)
\<close>

theorem prober_empty_input:
  "existing_ids_in_tidb ops (tidb\<lparr>tquery := q\<rparr>) table [] = Inr {} \<and>
   existing_ids_in_tidb ops (tidb\<lparr>tquery := (\<lambda>t flt. Inl e)\<rparr>) table (i # ids) = Inl e"
proof
  show "existing_ids_in_tidb ops (tidb\<lparr>tquery := q\<rparr>) table [] = Inr {}"
    by (simp add: existing_ids_in_tidb_def)
  show "existing_ids_in_tidb ops (tidb\<lparr>tquery := (\<lambda>t flt. Inl e)\<rparr>) table (i # ids) = Inl e"
    by (simp add: existing_ids_in_tidb_def Let_def)
qed

subsection \<open>Embedding coercion\<close>





subsection \<open>Range validation of the command\<close>

text \<open>
  Claim C9. With an end below the start the command fails with the ClickException of line
  213. The result is the same in every world \<open>w\<close>, that is whatever the connections, the
  stores and \<open>migrate_range\<close> would do: nothing is fetched, probed or inserted.
\<close>

theorem main_rejects_reversed_range:
  assumes "end = Some e" and "e < start"
  shows "main w mc tt start end page_size ssl dry_run
           = Some (Inl (ClickException ''--end must be >= --start''))"
  using assms by (simp add: main_def)

theorem main_rejects_reversed_range_witness:
  "main (memory_world [id_row 1] []) ''chunk'' ''chunks'' 5 (Some 3) 200 True False
     = Some (Inl (ClickException ''--end must be >= --start''))"
proof -
  have h1: "Some (3::int) = Some 3" by simp
  have h2: "(3::int) < 5" by simp
  show ?thesis by (rule main_rejects_reversed_range[OF h1 h2])
qed

subsection \<open>Rows of one page with the same id\<close>





subsection \<open>The range filter\<close>

lemma digit_char_in: "d < 10 \<Longrightarrow> digit_char d \<in> set ''0123456789''"
proof -
  assume "d < 10"
  then have "d \<in> {0,1,2,3,4,5,6,7,8,9}" by auto
  then show ?thesis by (auto simp: digit_char_def)
qed

lemma show_nat_digits: "set (show_nat n) \<subseteq> set ''0123456789''"
proof (induction n rule: show_nat.induct)
  case (1 n)
  show ?case
  proof (cases "n < 10")
    case True
    then show ?thesis using digit_char_in[of n] by (subst show_nat.simps) simp
  next
    case False
    then have "set (show_nat (n div 10)) \<subseteq> set ''0123456789''" using 1 by simp
    moreover have "digit_char (n mod 10) \<in> set ''0123456789''" by (rule digit_char_in) simp
    ultimately show ?thesis using False by (subst show_nat.simps) simp
  qed
qed

lemma show_nat_nonempty: "show_nat n \<noteq> []"
  by (subst show_nat.simps) simp

lemma parse_nat_show_nat: "parse_nat (show_nat n) = Some n"
  by (simp add: parse_nat_def show_nat_nonempty parse_digits_show_nat)

lemma show_nat_hd_not_minus: "show_nat n = c # cs \<Longrightarrow> c \<noteq> CHR ''-''"
  using show_nat_digits[of n] by auto

lemma parse_int_show_int: "parse_int (show_int i) = Some i"
proof (cases "i < 0")
  case True
  then show ?thesis by (simp add: show_int_def parse_int_def parse_nat_show_nat)
next
  case False
  obtain c cs where s: "show_nat (nat i) = c # cs"
    using show_nat_nonempty[of "nat i"] by (cases "show_nat (nat i)") auto
  have "c \<noteq> CHR ''-''" using show_nat_hd_not_minus[OF s] .
  moreover have "parse_nat (c # cs) = Some (nat i)" using parse_nat_show_nat[of "nat i"] s by simp
  ultimately show ?thesis using False s by (simp add: show_int_def parse_int_def)
qed

lemma show_int_chars: "set (show_int i) \<subseteq> set ''-0123456789''"
proof (cases "i < 0")
  case True
  have "set (show_nat (nat (- i))) \<subseteq> set ''-0123456789''"
    using show_nat_digits[of "nat (- i)"] by (rule subset_trans) (simp add: subset_iff)
  then show ?thesis using True by (simp add: show_int_def)
next
  case False
  have "set (show_nat (nat i)) \<subseteq> set ''-0123456789''"
    using show_nat_digits[of "nat i"] by (rule subset_trans) (simp add: subset_iff)
  then show ?thesis using False by (simp add: show_int_def)
qed

lemma show_int_no_blank: "CHR '' '' \<notin> set (show_int i)"
  using show_int_chars[of i] by auto

lemma show_int_no_comma: "CHR '','' \<notin> set (show_int i)"
  using show_int_chars[of i] by auto

lemma show_int_not_and: "show_int i \<noteq> ''&&''"
proof
  assume "show_int i = ''&&''"
  then have "CHR ''&'' \<in> set (show_int i)" by simp
  then show False using show_int_chars[of i] by auto
qed

lemma split_on_absent: "sep \<notin> set xs \<Longrightarrow> split_on sep xs = [xs]"
  by (induction xs) auto

lemma split_on_first: "sep \<notin> set xs \<Longrightarrow> split_on sep (xs @ sep # ys) = xs # split_on sep ys"
  by (induction xs) auto

lemma tokens_lower:
  "split_on CHR '' '' (''id >= '' @ show_int s) = [''id'', ''>='', show_int s]"
proof -
  have a: "split_on CHR '' '' (show_int s) = [show_int s]"
    by (rule split_on_absent[OF show_int_no_blank])
  have b: "split_on CHR '' '' (''>='' @ CHR '' '' # show_int s) = ''>='' # split_on CHR '' '' (show_int s)"
    by (rule split_on_first) simp
  have c: "split_on CHR '' '' (''id'' @ CHR '' '' # (''>='' @ CHR '' '' # show_int s))
             = ''id'' # split_on CHR '' '' (''>='' @ CHR '' '' # show_int s)"
    by (rule split_on_first) simp
  have "''id >= '' @ show_int s = ''id'' @ CHR '' '' # (''>='' @ CHR '' '' # show_int s)" by simp
  then show ?thesis using a b c by (simp only:)
qed

lemma tokens_upper:
  "split_on CHR '' '' (''&& id < '' @ show_int e) = [''&&'', ''id'', ''<'', show_int e]"
proof -
  have a: "split_on CHR '' '' (show_int e) = [show_int e]"
    by (rule split_on_absent[OF show_int_no_blank])
  have b: "split_on CHR '' '' (''<'' @ CHR '' '' # show_int e) = ''<'' # split_on CHR '' '' (show_int e)"
    by (rule split_on_first) simp
  have c: "split_on CHR '' '' (''id'' @ CHR '' '' # (''<'' @ CHR '' '' # show_int e))
             = ''id'' # split_on CHR '' '' (''<'' @ CHR '' '' # show_int e)"
    by (rule split_on_first) simp
  have d: "split_on CHR '' '' (''&&'' @ CHR '' '' # (''id'' @ CHR '' '' # (''<'' @ CHR '' '' # show_int e)))
             = ''&&'' # split_on CHR '' '' (''id'' @ CHR '' '' # (''<'' @ CHR '' '' # show_int e))"
    by (rule split_on_first) simp
  have "''&& id < '' @ show_int e
          = ''&&'' @ CHR '' '' # (''id'' @ CHR '' '' # (''<'' @ CHR '' '' # show_int e))" by simp
  then show ?thesis using a b c d by (simp only:)
qed

lemma tokens_both:
  "split_on CHR '' '' (''id >= '' @ show_int s @ '' && id < '' @ show_int e)
     = [''id'', ''>='', show_int s, ''&&'', ''id'', ''<'', show_int e]"
proof -
  have c: "split_on CHR '' '' (show_int s @ CHR '' '' # (''&& id < '' @ show_int e))
             = show_int s # split_on CHR '' '' (''&& id < '' @ show_int e)"
    by (rule split_on_first[OF show_int_no_blank])
  have b: "split_on CHR '' '' (''>='' @ CHR '' '' # (show_int s @ CHR '' '' # (''&& id < '' @ show_int e)))
             = ''>='' # split_on CHR '' '' (show_int s @ CHR '' '' # (''&& id < '' @ show_int e))"
    by (rule split_on_first) simp
  have a: "split_on CHR '' '' (''id'' @ CHR '' '' # (''>='' @ CHR '' '' # (show_int s @ CHR '' '' # (''&& id < '' @ show_int e))))
             = ''id'' # split_on CHR '' '' (''>='' @ CHR '' '' # (show_int s @ CHR '' '' # (''&& id < '' @ show_int e)))"
    by (rule split_on_first) simp
  have "''id >= '' @ show_int s @ '' && id < '' @ show_int e
          = ''id'' @ CHR '' '' # (''>='' @ CHR '' '' # (show_int s @ CHR '' '' # (''&& id < '' @ show_int e)))"
    by simp
  then show ?thesis using a b c tokens_upper[of e] by (simp only:)
qed

lemma clauses_lower:
  "split_on ''&&'' [''id'', ''>='', show_int s] = [[''id'', ''>='', show_int s]]"
  by (rule split_on_absent) (simp add: show_int_not_and[symmetric] show_int_not_and)

lemma clauses_both:
  "split_on ''&&'' [''id'', ''>='', show_int s, ''&&'', ''id'', ''<'', show_int e]
     = [[''id'', ''>='', show_int s], [''id'', ''<'', show_int e]]"
proof -
  have r: "split_on ''&&'' [''id'', ''<'', show_int e] = [[''id'', ''<'', show_int e]]"
    by (rule split_on_absent) (simp add: show_int_not_and[symmetric] show_int_not_and)
  have "split_on ''&&'' ([''id'', ''>='', show_int s] @ ''&&'' # [''id'', ''<'', show_int e])
          = [''id'', ''>='', show_int s] # split_on ''&&'' [''id'', ''<'', show_int e]"
    by (rule split_on_first) (simp add: show_int_not_and[symmetric] show_int_not_and)
  then show ?thesis using r by simp
qed

lemma filter_admits_milvus_filter:
  "filter_admits (milvus_filter start end) i
     = Some (start \<le> i \<and> (case end of None \<Rightarrow> True | Some e \<Rightarrow> i < e))"
proof (cases "end")
  case None
  have "split_on ''&&'' (split_on CHR '' '' (milvus_filter start None))
          = [[''id'', ''>='', show_int start]]"
    by (simp only: milvus_filter_def option.case tokens_lower clauses_lower)
  then show ?thesis using None
    by (simp add: filter_admits_def parse_int_show_int)
next
  case (Some e)
  have "split_on ''&&'' (split_on CHR '' '' (milvus_filter start (Some e)))
          = [[''id'', ''>='', show_int start], [''id'', ''<'', show_int e]]"
    by (simp only: milvus_filter_def option.case tokens_both clauses_both)
  then show ?thesis using Some
    by (simp add: filter_admits_def parse_int_show_int)
qed

text \<open>
  Claim C5, as amended. The filter built for \<open>start\<close> and \<open>end\<close> admits exactly the ids \<open>i\<close>
  with \<open>start \<le> i\<close> and, when an end \<open>e\<close> is given, \<open>i < e\<close>. An id equal to the end is never
  admitted. The id equal to the start is admitted when no end is given or the start is below
  the end, and not otherwise: with \<open>end = start\<close>, which the command accepts, the range is
  empty.
\<close>

theorem range_boundary:
  "filter_admits (milvus_filter start end) i
     = Some (start \<le> i \<and> (case end of None \<Rightarrow> True | Some e \<Rightarrow> i < e)) \<and>
   filter_admits (milvus_filter start (Some e)) e = Some False \<and>
   filter_admits (milvus_filter start end) start
     = Some (case end of None \<Rightarrow> True | Some e \<Rightarrow> start < e)"
proof (intro conjI)
  show "filter_admits (milvus_filter start end) i
          = Some (start \<le> i \<and> (case end of None \<Rightarrow> True | Some e \<Rightarrow> i < e))"
    by (rule filter_admits_milvus_filter)
  show "filter_admits (milvus_filter start (Some e)) e = Some False"
    by (simp add: filter_admits_milvus_filter)
  show "filter_admits (milvus_filter start end) start
          = Some (case end of None \<Rightarrow> True | Some e \<Rightarrow> start < e)"
    by (simp add: filter_admits_milvus_filter)
qed

text \<open>
  With start 5 and end 5 the row with id 5 is not admitted, although its id is the start;
  the command accepts this range, and the run scans nothing.
\<close>

theorem range_boundary_counterexample:
  "filter_admits (milvus_filter 5 (Some 5)) 5 = Some False \<and>
   main (memory_world [id_row 5] []) ''chunk'' ''chunks'' 5 (Some 5) 200 True False
     = Some (Inr ([], ''Done. scanned=0 skipped_existing=0 inserted=0 (milvus_collection=chunk, tidb_table=chunks, range=[5,5))''))"
  by code_simp

subsection \<open>The in-memory stores meet the two properties of a destination\<close>

lemma split_on_join:
  "xs \<noteq> [] \<Longrightarrow> \<forall>x\<in>set xs. sep \<notin> set x \<Longrightarrow> split_on sep (join [sep] xs) = xs"
proof (induction "[sep]" xs rule: join.induct)
  case 1
  then show ?case by simp
next
  case (2 x)
  then show ?case by (simp add: split_on_absent)
next
  case (3 x y ys)
  have "split_on sep (x @ sep # join [sep] (y # ys)) = x # split_on sep (join [sep] (y # ys))"
    by (rule split_on_first) (use 3 in simp)
  then show ?case using 3 by simp
qed

lemma those_parse_show: "those (map (parse_int \<circ> show_int) ids) = Some ids"
  by (induction ids) (simp_all add: parse_int_show_int)

lemma in_filter_ids_rendered:
  assumes "ids \<noteq> []"
  shows "in_filter_ids (''id IN ('' @ join '','' (map show_int ids) @ '')'') = Some ids"
proof -
  let ?body = "join '','' (map show_int ids)"
  let ?flt = "''id IN ('' @ ?body @ '')''"
  have t: "take 7 ?flt = ''id IN (''" by simp
  have d: "drop (length ?flt - 1) ?flt = '')''" by simp
  have b: "butlast (drop 7 ?flt) = ?body" by (simp add: butlast_append)
  have s: "split_on CHR '','' ?body = map show_int ids"
    by (rule split_on_join) (use assms show_int_no_comma in auto)
  show ?thesis unfolding in_filter_ids_def t d b s by (simp add: those_parse_show)
qed

lemma has_id_chunk_row: "has_id (chunk_row c)"
  by (simp add: has_id_def chunk_row_def)

lemma row_get_chunk_row_id: "row_get (chunk_row c) ''id'' = PInt (chunk_id c)"
  by (simp add: row_get_def chunk_row_def)

lemma row_ids_chunk_rows: "row_ids ops (map chunk_row cs) = Inr (map chunk_id cs)"
  by (induction cs) (simp_all add: row_ids_Nil row_ids_Cons has_id_chunk_row row_get_chunk_row_id)

lemma tquery_memory_tidb:
  "tquery (memory_tidb stored) t flt =
     (case in_filter_ids flt of
        None \<Rightarrow> Inl (StoreError ''syntax error'')
      | Some ids \<Rightarrow> Inr (map chunk_row (filter (\<lambda>c. chunk_id c \<in> set ids) t)))"
  by (simp add: memory_tidb_def)

lemma bulk_insert_memory_tidb:
  "bulk_insert (memory_tidb stored) t batch =
     (if distinct (map chunk_id (t @ batch)) then Inr (t @ batch)
      else Inl (StoreError ''Duplicate entry for key PRIMARY''))"
  by (simp add: memory_tidb_def)

lemma probe_exact_memory_tidb:
  "probe_exact ops (memory_tidb stored) (\<lambda>t. chunk_id ` set t)"
  unfolding probe_exact_def
proof (intro allI)
  fix t :: "'a chunk list" and ids :: "int list"
  show "existing_ids_in_tidb ops (memory_tidb stored) t ids = Inr (set ids \<inter> chunk_id ` set t)"
  proof (cases "ids = []")
    case True
    then show ?thesis by (simp add: existing_ids_in_tidb_def)
  next
    case False
    have q: "tquery (memory_tidb stored) t (''id IN ('' @ join '','' (map show_int ids) @ '')'')
               = Inr (map chunk_row (filter (\<lambda>c. chunk_id c \<in> set ids) t))"
      by (simp only: tquery_memory_tidb in_filter_ids_rendered[OF False] option.case)
    have "existing_ids_in_tidb ops (memory_tidb stored) t ids
            = Inr (set (map chunk_id (filter (\<lambda>c. chunk_id c \<in> set ids) t)))"
      unfolding existing_ids_in_tidb_def Let_def q using False
      by (simp add: row_ids_chunk_rows)
    moreover have "set (map chunk_id (filter (\<lambda>c. chunk_id c \<in> set ids) t))
                     = set ids \<inter> chunk_id ` set t" by auto
    ultimately show ?thesis by simp
  qed
qed

lemma insert_adds_memory_tidb:
  "insert_adds (memory_tidb stored) (\<lambda>t. chunk_id ` set t)"
  unfolding insert_adds_def by (auto simp: bulk_insert_memory_tidb split: if_splits)

lemma builtins_memory_world: "builtins (memory_world rows stored) = ideal_ops"
  by (simp add: memory_world_def)

lemma fetch_snapshot:
  "fetch_milvus_page (snapshot_milvus desc rows) mc start end limit offset
     = Inr (take (nat limit) (drop (nat offset)
         (filter (row_admitted (\<lambda>i. Some (start \<le> i \<and> (case end of None \<Rightarrow> True | Some e \<Rightarrow> i < e))))
            rows)))"
proof -
  have "filter_admits (milvus_filter start end)
          = (\<lambda>i. Some (start \<le> i \<and> (case end of None \<Rightarrow> True | Some e \<Rightarrow> i < e)))"
    by (rule ext) (rule filter_admits_milvus_filter)
  then show ?thesis by (simp add: fetch_milvus_page_def snapshot_milvus_def)
qed

lemma row_admitted_id_row: "row_admitted p (id_row i) = (p i = Some True)"
  by (simp add: row_admitted_def id_row_def)

lemma scan_three_rows:
  "scan (snapshot_milvus (PDict []) [id_row 1, id_row 2, id_row 3]) ''chunk'' 0 None 2 0
     [[id_row 1, id_row 2], [id_row 3]]"
proof -
  let ?m = "snapshot_milvus (PDict []) [id_row 1, id_row 2, id_row 3 :: real row]"
  have f0: "fetch_milvus_page ?m ''chunk'' 0 None 2 0 = Inr [id_row 1, id_row 2]"
    by (simp add: fetch_snapshot row_admitted_id_row)
  have f2: "fetch_milvus_page ?m ''chunk'' 0 None 2 2 = Inr [id_row 3]"
    by (simp add: fetch_snapshot row_admitted_id_row)
  have f3: "fetch_milvus_page ?m ''chunk'' 0 None 2 3 = Inr []"
    by (simp add: fetch_snapshot row_admitted_id_row)
  have s3: "scan ?m ''chunk'' 0 None 2 3 []" by (rule scan_done[OF f3])
  have s2: "scan ?m ''chunk'' 0 None 2 2 [[id_row 3]]"
    by (rule scan_page[OF f2]) (use s3 in simp_all)
  show ?thesis
    by (rule scan_page[OF f0]) (use s2 in simp_all)
qed

subsection \<open>A page against a destination that answers exactly\<close>

lemma page_id_set_row_ids: "row_ids ops page = Inr is \<Longrightarrow> page_id_set ops page = set is"
  by (simp add: page_id_set_def)

lemma stage_ids:
  "stage ops existing page skipped to_insert = Inr (skipped', to_insert') \<Longrightarrow>
   row_ids ops page = Inr is \<Longrightarrow>
   chunk_id ` set to_insert' = chunk_id ` set to_insert \<union> (set is - existing)"
proof (induction page arbitrary: skipped to_insert "is")
  case Nil
  then show ?case by (simp add: row_ids_Nil)
next
  case (Cons r page)
  show ?case
  proof (cases "has_id r")
    case False
    then have st: "stage ops existing page skipped to_insert = Inr (skipped', to_insert')"
      using Cons.prems(1) by (simp add: row_get_id_None)
    have "row_ids ops page = Inr is" using Cons.prems(2) False by (simp add: row_ids_Cons)
    from Cons.IH[OF st this] show ?thesis .
  next
    case True
    then obtain i is' where i: "py_int ops (row_get r ''id'') = Inr i"
      and is': "row_ids ops page = Inr is'" and eq: "is = i # is'"
      using Cons.prems(2) by (auto simp: row_ids_Cons split: sum.splits)
    show ?thesis
    proof (cases "i \<in> existing")
      case True
      then have "stage ops existing page (skipped + 1) to_insert = Inr (skipped', to_insert')"
        using Cons.prems(1) i \<open>has_id r\<close> by (simp add: row_get_id_None)
      from Cons.IH[OF this is'] True eq show ?thesis by auto
    next
      case False
      then obtain c where c: "make_chunk ops r i = Inr c"
        and st: "stage ops existing page skipped (to_insert @ [c]) = Inr (skipped', to_insert')"
        using Cons.prems(1) i \<open>has_id r\<close> by (auto simp: row_get_id_None split: sum.splits)
      from Cons.IH[OF st is'] make_chunk_id[OF c] False eq show ?thesis by auto
    qed
  qed
qed

lemma stage_all_existing:
  "row_ids ops page = Inr is \<Longrightarrow> set is \<subseteq> existing \<Longrightarrow>
   stage ops existing page skipped to_insert = Inr (skipped + int (length is), to_insert)"
proof (induction page arbitrary: skipped "is")
  case Nil
  then show ?case by (simp add: row_ids_Nil)
next
  case (Cons r page)
  show ?case
  proof (cases "has_id r")
    case False
    then have "row_ids ops page = Inr is" using Cons.prems(1) by (simp add: row_ids_Cons)
    from Cons.IH[OF this Cons.prems(2)] False show ?thesis by (simp add: row_get_id_None)
  next
    case True
    then obtain i is' where i: "py_int ops (row_get r ''id'') = Inr i"
      and is': "row_ids ops page = Inr is'" and eq: "is = i # is'"
      using Cons.prems(1) by (auto simp: row_ids_Cons split: sum.splits)
    have sub: "set is' \<subseteq> existing" and mem: "i \<in> existing" using Cons.prems(2) eq by auto
    from Cons.IH[OF is' sub, of "skipped + 1"] True i mem eq show ?thesis
      by (simp add: row_get_id_None)
  qed
qed

lemma stage_same_on_page_ids:
  "row_ids ops page = Inr is \<Longrightarrow> existing \<inter> set is = existing' \<inter> set is \<Longrightarrow>
   stage ops existing page skipped to_insert = stage ops existing' page skipped to_insert"
proof (induction page arbitrary: skipped to_insert "is")
  case Nil
  then show ?case by simp
next
  case (Cons r page)
  show ?case
  proof (cases "has_id r")
    case False
    then have "row_ids ops page = Inr is" using Cons.prems(1) by (simp add: row_ids_Cons)
    from Cons.IH[OF this Cons.prems(2)] False show ?thesis by (simp add: row_get_id_None)
  next
    case True
    then obtain i is' where i: "py_int ops (row_get r ''id'') = Inr i"
      and is': "row_ids ops page = Inr is'" and eq: "is = i # is'"
      using Cons.prems(1) by (auto simp: row_ids_Cons split: sum.splits)
    have same: "existing \<inter> set is' = existing' \<inter> set is'" using Cons.prems(2) eq by auto
    have mem: "i \<in> existing \<longleftrightarrow> i \<in> existing'" using Cons.prems(2) eq by auto
    show ?thesis using True i mem Cons.IH[OF is' same]
      by (simp add: row_get_id_None split: sum.splits)
  qed
qed

lemma migrate_page_Inr:
  assumes "migrate_page ops tidb dry_run table page skipped inserted = Inr (table', skipped', inserted')"
  shows "\<exists>is existing to_insert.
           row_ids ops page = Inr is \<and>
           existing_ids_in_tidb ops tidb table is = Inr existing \<and>
           stage ops existing page skipped [] = Inr (skipped', to_insert) \<and>
           inserted' = inserted + int (length to_insert) \<and>
           (if to_insert = [] \<or> dry_run then table' = table
            else bulk_insert tidb table to_insert = Inr table')"
proof (cases "row_ids ops page")
  case (Inl e)
  then show ?thesis using assms by (simp add: migrate_page_def)
next
  case ri: (Inr "is")
  show ?thesis
  proof (cases "existing_ids_in_tidb ops tidb table is")
    case (Inl e)
    then show ?thesis using assms ri by (simp add: migrate_page_def)
  next
    case ex: (Inr existing)
    show ?thesis
    proof (cases "stage ops existing page skipped []")
      case (Inl e)
      then show ?thesis using assms ri ex by (simp add: migrate_page_def)
    next
      case (Inr res)
      obtain sk to_insert where res: "res = (sk, to_insert)" by (cases res) auto
      have st: "stage ops existing page skipped [] = Inr (sk, to_insert)" using Inr res by simp
      have body: "(if to_insert = [] then Inr (table, sk, inserted)
             else if dry_run then Inr (table, sk, inserted + int (length to_insert))
             else (case bulk_insert tidb table to_insert of
                     Inl e \<Rightarrow> Inl e
                   | Inr t2 \<Rightarrow> Inr (t2, sk, inserted + int (length to_insert))))
            = Inr (table', skipped', inserted')"
        using assms ri ex st by (simp add: migrate_page_def)
      have "sk = skipped' \<and> inserted' = inserted + int (length to_insert) \<and>
            (if to_insert = [] \<or> dry_run then table' = table
             else bulk_insert tidb table to_insert = Inr table')"
      proof (cases "to_insert = []")
        case True
        then show ?thesis using body by simp
      next
        case False
        show ?thesis
        proof (cases dry_run)
          case True
          then show ?thesis using body False by simp
        next
          case dr: False
          show ?thesis
          proof (cases "bulk_insert tidb table to_insert")
            case (Inl e)
            then show ?thesis using body False dr by simp
          next
            case (Inr t2)
            then show ?thesis using body False dr by simp
          qed
        qed
      qed
      then show ?thesis using ri ex st by blast
    qed
  qed
qed

lemma migrate_page_dry:
  assumes "row_ids ops page = Inr is"
    and "existing_ids_in_tidb ops tidb table is = Inr existing"
    and "stage ops existing page skipped [] = Inr (skipped', to_insert)"
  shows "migrate_page ops tidb True table page skipped inserted
           = Inr (table, skipped', inserted + int (length to_insert))"
  using assms by (simp add: migrate_page_def)

lemma migrate_page_real_ids:
  assumes pe: "probe_exact ops tidb ids_of" and ia: "insert_adds tidb ids_of"
    and mp: "migrate_page ops tidb False table page skipped inserted = Inr (table', skipped', inserted')"
  shows "\<exists>is. row_ids ops page = Inr is \<and> ids_of table' = ids_of table \<union> set is \<and>
              (skipped' - skipped) + (inserted' - inserted) = int (length is)"
proof -
  from migrate_page_Inr[OF mp] obtain "is" existing to_insert where
    ri: "row_ids ops page = Inr is"
    and ex: "existing_ids_in_tidb ops tidb table is = Inr existing"
    and st: "stage ops existing page skipped [] = Inr (skipped', to_insert)"
    and ins: "inserted' = inserted + int (length to_insert)"
    and tb: "if to_insert = [] \<or> False then table' = table
             else bulk_insert tidb table to_insert = Inr table'"
    by blast
  have exq: "existing = set is \<inter> ids_of table" using pe ex by (simp add: probe_exact_def)
  have staged: "chunk_id ` set to_insert = set is - existing" using stage_ids[OF st ri] by simp
  have ids: "ids_of table' = ids_of table \<union> set is"
  proof (cases "to_insert = []")
    case True
    then have "set is \<subseteq> ids_of table" using staged exq by auto
    then show ?thesis using tb True by auto
  next
    case False
    then have "bulk_insert tidb table to_insert = Inr table'" using tb by simp
    then have "ids_of table' = ids_of table \<union> chunk_id ` set to_insert"
      using ia by (simp add: insert_adds_def)
    then show ?thesis using staged exq by auto
  qed
  have "skipped' + int (length to_insert) + int (length (filter (\<lambda>r. \<not> has_id r) page))
          = skipped + int (length page)"
    using stage_count[OF st] by simp
  moreover have "length is = length (filter has_id page)" using row_ids_length[OF ri] .
  moreover have "length (filter has_id page) + length (filter (\<lambda>r. \<not> has_id r) page) = length page"
    by (rule sum_length_filter_compl)
  ultimately have "(skipped' - skipped) + (inserted' - inserted) = int (length is)"
    using ins by linarith
  with ri ids show ?thesis by blast
qed

lemma migrate_page_rerun:
  assumes pe: "probe_exact ops tidb ids_of"
    and ri: "row_ids ops page = Inr is" and sub: "set is \<subseteq> ids_of table"
  shows "migrate_page ops tidb dry_run table page skipped inserted
           = Inr (table, skipped + int (length is), inserted)"
proof -
  have ex: "existing_ids_in_tidb ops tidb table is = Inr (set is)"
    using pe sub by (auto simp: probe_exact_def Int_absorb2)
  have st: "stage ops (set is) page skipped [] = Inr (skipped + int (length is), [])"
    by (rule stage_all_existing[OF ri]) simp
  show ?thesis by (simp add: migrate_page_def ri ex st)
qed

subsection \<open>Running the same range again\<close>

lemma process_pages_first_run:
  assumes pe: "probe_exact ops tidb ids_of" and ia: "insert_adds tidb ids_of"
  shows "process_pages ops tidb False table pages skipped inserted = Inr (table1, skipped1, inserted1) \<Longrightarrow>
         ids_of table \<subseteq> ids_of table1 \<and>
         (\<forall>p\<in>set pages. \<exists>is. row_ids ops p = Inr is \<and> set is \<subseteq> ids_of table1) \<and>
         (skipped1 - skipped) + (inserted1 - inserted) = int (length (filter has_id (concat pages)))"
proof (induction pages arbitrary: table skipped inserted)
  case Nil
  then show ?case by simp
next
  case (Cons page pages)
  from Cons.prems obtain t' sk' ins' where
    mp: "migrate_page ops tidb False table page skipped inserted = Inr (t', sk', ins')"
    and rest: "process_pages ops tidb False t' pages sk' ins' = Inr (table1, skipped1, inserted1)"
    by (auto split: sum.splits)
  from migrate_page_real_ids[OF pe ia mp] obtain "is" where
    ri: "row_ids ops page = Inr is" and ids: "ids_of t' = ids_of table \<union> set is"
    and cnt: "(sk' - skipped) + (ins' - inserted) = int (length is)" by blast
  from Cons.IH[OF rest] have up: "ids_of t' \<subseteq> ids_of table1"
    and all: "\<forall>p\<in>set pages. \<exists>is. row_ids ops p = Inr is \<and> set is \<subseteq> ids_of table1"
    and cnt': "(skipped1 - sk') + (inserted1 - ins') = int (length (filter has_id (concat pages)))"
    by auto
  have a: "ids_of table \<subseteq> ids_of table1" using ids up by auto
  have "set is \<subseteq> ids_of table1" using ids up by auto
  with ri all have b: "\<forall>p\<in>set (page # pages). \<exists>is. row_ids ops p = Inr is \<and> set is \<subseteq> ids_of table1"
    by auto
  have "length is = length (filter has_id page)" by (rule row_ids_length[OF ri])
  with cnt cnt' have c: "(skipped1 - skipped) + (inserted1 - inserted)
      = int (length (filter has_id (concat (page # pages))))" by simp
  from a b c show ?case by blast
qed

lemma process_pages_all_present:
  assumes pe: "probe_exact ops tidb ids_of"
  shows "\<forall>p\<in>set pages. \<exists>is. row_ids ops p = Inr is \<and> set is \<subseteq> ids_of table \<Longrightarrow>
         process_pages ops tidb dry_run table pages skipped inserted
           = Inr (table, skipped + int (length (filter has_id (concat pages))), inserted)"
proof (induction pages arbitrary: skipped)
  case Nil
  then show ?case by simp
next
  case (Cons page pages)
  from Cons.prems obtain "is" where ri: "row_ids ops page = Inr is" and sub: "set is \<subseteq> ids_of table"
    by auto
  have mp: "migrate_page ops tidb dry_run table page skipped inserted
              = Inr (table, skipped + int (length is), inserted)"
    by (rule migrate_page_rerun[OF pe ri sub])
  have len: "length is = length (filter has_id page)" by (rule row_ids_length[OF ri])
  have "\<forall>p\<in>set pages. \<exists>is. row_ids ops p = Inr is \<and> set is \<subseteq> ids_of table"
    using Cons.prems by simp
  from Cons.IH[OF this, of "skipped + int (length is)"] mp len show ?case by simp
qed

text \<open>
  Claim C1, as amended. Let a first run with \<open>dry_run = False\<close> complete on a destination
  that answers probes exactly and whose inserts add the ids of their batch, and let a second
  run with the same source start from the table the first run left (\<open>w'\<close> is the world of
  the second invocation: the same source client and builtins, a destination client \<open>tidb'\<close>
  that answers probes exactly, the table state \<open>table1\<close>). Then the second run completes,
  leaves the table as it is, inserts nothing, scans as many rows as the first run, and skips
  as many rows as the first run skipped or inserted: \<open>skipped\<close> is \<open>scanned\<close> less the number
  of fetched rows whose id is missing or None, and equals \<open>scanned\<close> when every fetched row
  carries an id.
\<close>

theorem rerun_inserts_nothing:
  assumes pe: "probe_exact (builtins w) tidb ids_of" and ia: "insert_adds tidb ids_of"
    and prep: "prepare w mc tt ssl = Inr (milvus, tidb, table)"
    and run1: "migrate_range w mc tt start end page_size ssl False
                 = Some (Inr (table1, scanned1, skipped1, inserted1))"
    and prep': "prepare w' mc tt ssl = Inr (milvus, tidb', table1)"
    and ops': "builtins w' = builtins w"
    and pe': "probe_exact (builtins w) tidb' ids_of"
  shows "migrate_range w' mc tt start end page_size ssl False
           = Some (Inr (table1, scanned1, skipped1 + inserted1, 0)) \<and>
         (\<exists>pages. scan milvus mc start end page_size 0 pages \<and>
            scanned1 = int (length (concat pages)) \<and>
            skipped1 + inserted1
              = scanned1 - int (length (filter (\<lambda>r. \<not> has_id r) (concat pages))))"
proof -
  from run_accounting[OF prep run1] obtain pages where
    sc: "scan milvus mc start end page_size 0 pages"
    and n: "scanned1 = int (length (concat pages))"
    and pp: "process_pages (builtins w) tidb False table pages 0 0 = Inr (table1, skipped1, inserted1)"
    and acc: "scanned1 = skipped1 + inserted1 + int (length (filter (\<lambda>r. \<not> has_id r) (concat pages)))"
    by blast
  from process_pages_first_run[OF pe ia pp]
  have present: "\<forall>p\<in>set pages. \<exists>is. row_ids (builtins w) p = Inr is \<and> set is \<subseteq> ids_of table1"
    and cnt: "skipped1 + inserted1 = int (length (filter has_id (concat pages)))"
    by auto
  have "process_pages (builtins w) tidb' False table1 pages 0 0
          = Inr (table1, 0 + int (length (filter has_id (concat pages))), 0)"
    by (rule process_pages_all_present[OF pe' present])
  then have pp2: "process_pages (builtins w) tidb' False table1 pages 0 0
          = Inr (table1, skipped1 + inserted1, 0)" using cnt by simp
  have "migrate_range w' mc tt start end page_size ssl False
          = migrate_pages (builtins w) milvus tidb' mc start end page_size False 0 0 0 0 table1"
    using migrate_range_unfold[OF prep'] ops' by simp
  also have "\<dots> = Some (with_scanned (0 + int (length (concat pages)))
                       (process_pages (builtins w) tidb' False table1 pages 0 0))"
    by (rule scan_run[OF sc])
  also have "\<dots> = Some (Inr (table1, scanned1, skipped1 + inserted1, 0))"
    using pp2 n by (simp add: with_scanned_def)
  finally have second: "migrate_range w' mc tt start end page_size ssl False
          = Some (Inr (table1, scanned1, skipped1 + inserted1, 0))" .
  from acc have "skipped1 + inserted1
      = scanned1 - int (length (filter (\<lambda>r. \<not> has_id r) (concat pages)))" by simp
  with second sc n show ?thesis by blast
qed

text \<open>
  With a source row whose id is None the second run ends with scanned 2 and skipped 1: it
  inserts nothing, but skipped is not the number of rows scanned.
\<close>

theorem rerun_counterexample:
  "migrate_range (memory_world [id_row 1, null_id_row] []) ''chunk'' ''chunks'' 0 None 200 True False
     = Some (Inr ([bare_chunk 1], 2, 0, 1)) \<and>
   migrate_range (memory_world [id_row 1, null_id_row] [bare_chunk 1])
       ''chunk'' ''chunks'' 0 None 200 True False
     = Some (Inr ([bare_chunk 1], 2, 1, 0)) \<and>
   (1::int) \<noteq> 2"
  by code_simp

theorem rerun_inserts_nothing_witness:
  "migrate_range (memory_world [id_row 1, null_id_row, id_row 2] []) ''chunk'' ''chunks'' 0 None 2 True False
     = Some (Inr ([bare_chunk 1, bare_chunk 2], 3, 0, 2)) \<and>
   migrate_range (memory_world [id_row 1, null_id_row, id_row 2] [bare_chunk 1, bare_chunk 2])
       ''chunk'' ''chunks'' 0 None 2 True False
     = Some (Inr ([bare_chunk 1, bare_chunk 2], 3, 0 + 2, 0)) \<and>
   (\<exists>pages. scan (snapshot_milvus (PDict []) [id_row 1, null_id_row, id_row 2]) ''chunk'' 0 None 2 0 pages \<and>
      (3::int) = int (length (concat pages)) \<and>
      (0::int) + 2 = 3 - int (length (filter (\<lambda>r. \<not> has_id r) (concat pages))))"
proof -
  let ?rows = "[id_row 1, null_id_row, id_row 2]"
  let ?t1 = "[bare_chunk 1, bare_chunk 2]"
  let ?ids = "\<lambda>t :: real chunk list. chunk_id ` set t"
  have pe: "probe_exact (builtins (memory_world ?rows [])) (memory_tidb []) ?ids"
    by (rule probe_exact_memory_tidb)
  have ia: "insert_adds (memory_tidb ([] :: real chunk list)) ?ids"
    by (rule insert_adds_memory_tidb)
  have prep: "prepare (memory_world ?rows []) ''chunk'' ''chunks'' True
                = Inr (snapshot_milvus (PDict []) ?rows, memory_tidb [], [])"
    by (rule prepare_memory_world)
  have run1: "migrate_range (memory_world ?rows []) ''chunk'' ''chunks'' 0 None 2 True False
                = Some (Inr (?t1, 3, 0, 2))"
    by code_simp
  have prep': "prepare (memory_world ?rows ?t1) ''chunk'' ''chunks'' True
                = Inr (snapshot_milvus (PDict []) ?rows, memory_tidb ?t1, ?t1)"
    by (rule prepare_memory_world)
  have ops': "builtins (memory_world ?rows ?t1) = builtins (memory_world ?rows [])"
    by (simp add: builtins_memory_world)
  have pe': "probe_exact (builtins (memory_world ?rows [])) (memory_tidb ?t1) ?ids"
    by (rule probe_exact_memory_tidb)
  from run1 rerun_inserts_nothing[OF pe ia prep run1 prep' ops' pe'] show ?thesis
    by blast
qed

subsection \<open>Dry run\<close>

lemma existing_ids_any_insert:
  "existing_ids_in_tidb ops (tidb\<lparr>bulk_insert := b\<rparr>) table ids = existing_ids_in_tidb ops tidb table ids"
  by (simp add: existing_ids_in_tidb_def)

lemma migrate_page_dry_any_insert:
  "migrate_page ops (tidb\<lparr>bulk_insert := b\<rparr>) True table page skipped inserted
     = migrate_page ops tidb True table page skipped inserted"
  by (simp add: migrate_page_def existing_ids_any_insert split: sum.splits prod.splits)

lemma process_pages_dry_any_insert:
  "process_pages ops (tidb\<lparr>bulk_insert := b\<rparr>) True table pages skipped inserted
     = process_pages ops tidb True table pages skipped inserted"
  by (induction pages arbitrary: table skipped inserted)
     (simp_all add: migrate_page_dry_any_insert split: sum.splits)

lemma migrate_page_dry_table:
  assumes "migrate_page ops tidb True table page skipped inserted = Inr (table', skipped', inserted')"
  shows "table' = table"
  using migrate_page_Inr[OF assms] by auto

lemma process_pages_dry_table:
  "process_pages ops tidb True table pages skipped inserted = Inr (table', skipped', inserted') \<Longrightarrow>
   table' = table"
proof (induction pages arbitrary: table skipped inserted)
  case Nil
  then show ?case by simp
next
  case (Cons page pages)
  from Cons.prems obtain t1 sk1 ins1 where
    mp: "migrate_page ops tidb True table page skipped inserted = Inr (t1, sk1, ins1)"
    and rest: "process_pages ops tidb True t1 pages sk1 ins1 = Inr (table', skipped', inserted')"
    by (auto split: sum.splits)
  from migrate_page_dry_table[OF mp] Cons.IH[OF rest] show ?case by simp
qed

lemma dry_page_matches_real:
  assumes pe: "probe_exact ops tidb ids_of" and ia: "insert_adds tidb ids_of"
    and mp: "migrate_page ops tidb False table page skipped inserted = Inr (table', skipped', inserted')"
    and lo: "ids_of table0 \<subseteq> ids_of table" and hi: "ids_of table \<subseteq> ids_of table0 \<union> seen"
    and fresh: "page_id_set ops page \<inter> seen = {}"
  shows "migrate_page ops tidb True table0 page skipped inserted = Inr (table0, skipped', inserted') \<and>
         ids_of table0 \<subseteq> ids_of table' \<and>
         ids_of table' \<subseteq> ids_of table0 \<union> (seen \<union> page_id_set ops page)"
proof -
  from migrate_page_Inr[OF mp] obtain "is" existing to_insert where
    ri: "row_ids ops page = Inr is"
    and ex: "existing_ids_in_tidb ops tidb table is = Inr existing"
    and st: "stage ops existing page skipped [] = Inr (skipped', to_insert)"
    and ins: "inserted' = inserted + int (length to_insert)"
    by blast
  have ps: "page_id_set ops page = set is" by (rule page_id_set_row_ids[OF ri])
  have exq: "existing = set is \<inter> ids_of table" using pe ex by (simp add: probe_exact_def)
  have ex0: "existing_ids_in_tidb ops tidb table0 is = Inr (set is \<inter> ids_of table0)"
    using pe by (simp add: probe_exact_def)
  have same: "existing \<inter> set is = (set is \<inter> ids_of table0) \<inter> set is"
    using exq lo hi fresh ps by auto
  have st0: "stage ops (set is \<inter> ids_of table0) page skipped [] = Inr (skipped', to_insert)"
    using stage_same_on_page_ids[OF ri same, of skipped "[]"] st by simp
  have dry: "migrate_page ops tidb True table0 page skipped inserted = Inr (table0, skipped', inserted')"
    using migrate_page_dry[OF ri ex0 st0] ins by simp
  from migrate_page_real_ids[OF pe ia mp] ri have ids: "ids_of table' = ids_of table \<union> set is"
    by auto
  have "ids_of table0 \<subseteq> ids_of table'" using ids lo by auto
  moreover have "ids_of table' \<subseteq> ids_of table0 \<union> (seen \<union> page_id_set ops page)"
    using ids hi ps by auto
  ultimately show ?thesis using dry by blast
qed

lemma dry_pages_match_real:
  assumes pe: "probe_exact ops tidb ids_of" and ia: "insert_adds tidb ids_of"
  shows "process_pages ops tidb False table pages skipped inserted = Inr (table', skipped', inserted') \<Longrightarrow>
         ids_of table0 \<subseteq> ids_of table \<Longrightarrow> ids_of table \<subseteq> ids_of table0 \<union> seen \<Longrightarrow>
         \<forall>p\<in>set pages. page_id_set ops p \<inter> seen = {} \<Longrightarrow>
         sorted_wrt (\<lambda>p q. page_id_set ops p \<inter> page_id_set ops q = {}) pages \<Longrightarrow>
         process_pages ops tidb True table0 pages skipped inserted = Inr (table0, skipped', inserted')"
proof (induction pages arbitrary: table skipped inserted seen)
  case Nil
  then show ?case by simp
next
  case (Cons page pages)
  from Cons.prems(1) obtain t1 sk1 ins1 where
    mp: "migrate_page ops tidb False table page skipped inserted = Inr (t1, sk1, ins1)"
    and rest: "process_pages ops tidb False t1 pages sk1 ins1 = Inr (table', skipped', inserted')"
    by (auto split: sum.splits)
  have fresh: "page_id_set ops page \<inter> seen = {}" using Cons.prems(4) by simp
  from dry_page_matches_real[OF pe ia mp Cons.prems(2,3) fresh]
  have dry: "migrate_page ops tidb True table0 page skipped inserted = Inr (table0, sk1, ins1)"
    and lo: "ids_of table0 \<subseteq> ids_of t1"
    and hi: "ids_of t1 \<subseteq> ids_of table0 \<union> (seen \<union> page_id_set ops page)"
    by auto
  have apart: "\<forall>p\<in>set pages. page_id_set ops p \<inter> (seen \<union> page_id_set ops page) = {}"
    using Cons.prems(4,5) by auto
  have sw: "sorted_wrt (\<lambda>p q. page_id_set ops p \<inter> page_id_set ops q = {}) pages"
    using Cons.prems(5) by simp
  from Cons.IH[OF rest lo hi apart sw] dry show ?case by simp
qed

text \<open>
  Claim C4, as amended. A dry run that completes returns the table as it was opened, and its
  result is the same with any insert operation \<open>b\<close> in place of the destination's, also one
  that always raises: no bulk insert is performed. Its counters are those of a completed
  normal run from the same table when no id occurs on two different fetched pages (\<open>pages\<close>
  are the pages of the scan) and the destination answers probes exactly and inserts the ids
  of each batch. Without the condition on the pages the counters can differ: the normal run
  skips the second occurrence of an id it has inserted from an earlier page, the dry run
  counts it as inserted again.
\<close>

theorem dry_run_non_mutation:
  assumes prep: "prepare w mc tt ssl = Inr (milvus, tidb, table)"
  shows "(migrate_range w mc tt start end page_size ssl True
            = Some (Inr (table_d, scanned_d, skipped_d, inserted_d)) \<longrightarrow>
          table_d = table \<and>
          (\<forall>b. migrate_pages (builtins w) milvus (tidb\<lparr>bulk_insert := b\<rparr>) mc start end page_size True
                  0 0 0 0 table = Some (Inr (table, scanned_d, skipped_d, inserted_d)))) \<and>
         (probe_exact (builtins w) tidb ids_of \<and> insert_adds tidb ids_of \<and>
          scan milvus mc start end page_size 0 pages \<and>
          (\<forall>i j. i < j \<and> j < length pages \<longrightarrow>
             page_id_set (builtins w) (pages ! i) \<inter> page_id_set (builtins w) (pages ! j) = {}) \<and>
          migrate_range w mc tt start end page_size ssl False
            = Some (Inr (table', scanned, skipped, inserted)) \<longrightarrow>
          migrate_range w mc tt start end page_size ssl True
            = Some (Inr (table, scanned, skipped, inserted)))"
proof (intro conjI impI)
  assume dry: "migrate_range w mc tt start end page_size ssl True
                 = Some (Inr (table_d, scanned_d, skipped_d, inserted_d))"
  from run_accounting[OF prep dry] obtain ps where
    sc: "scan milvus mc start end page_size 0 ps"
    and n: "scanned_d = int (length (concat ps))"
    and pp: "process_pages (builtins w) tidb True table ps 0 0 = Inr (table_d, skipped_d, inserted_d)"
    by blast
  show t: "table_d = table" by (rule process_pages_dry_table[OF pp])
  show "\<forall>b. migrate_pages (builtins w) milvus (tidb\<lparr>bulk_insert := b\<rparr>) mc start end page_size True
                  0 0 0 0 table = Some (Inr (table, scanned_d, skipped_d, inserted_d))"
  proof
    fix b
    have "migrate_pages (builtins w) milvus (tidb\<lparr>bulk_insert := b\<rparr>) mc start end page_size True
            0 0 0 0 table
          = Some (with_scanned (0 + int (length (concat ps)))
                   (process_pages (builtins w) (tidb\<lparr>bulk_insert := b\<rparr>) True table ps 0 0))"
      by (rule scan_run[OF sc])
    then show "migrate_pages (builtins w) milvus (tidb\<lparr>bulk_insert := b\<rparr>) mc start end page_size True
            0 0 0 0 table = Some (Inr (table, scanned_d, skipped_d, inserted_d))"
      using pp n t by (simp add: process_pages_dry_any_insert with_scanned_def)
  qed
next
  assume h: "probe_exact (builtins w) tidb ids_of \<and> insert_adds tidb ids_of \<and>
          scan milvus mc start end page_size 0 pages \<and>
          (\<forall>i j. i < j \<and> j < length pages \<longrightarrow>
             page_id_set (builtins w) (pages ! i) \<inter> page_id_set (builtins w) (pages ! j) = {}) \<and>
          migrate_range w mc tt start end page_size ssl False
            = Some (Inr (table', scanned, skipped, inserted))"
  then have pe: "probe_exact (builtins w) tidb ids_of" and ia: "insert_adds tidb ids_of"
    and sc: "scan milvus mc start end page_size 0 pages"
    and apart: "\<forall>i j. i < j \<and> j < length pages \<longrightarrow>
             page_id_set (builtins w) (pages ! i) \<inter> page_id_set (builtins w) (pages ! j) = {}"
    and real: "migrate_range w mc tt start end page_size ssl False
            = Some (Inr (table', scanned, skipped, inserted))"
    by blast+
  have "migrate_pages (builtins w) milvus tidb mc start end page_size False 0 0 0 0 table
          = Some (with_scanned (0 + int (length (concat pages)))
                   (process_pages (builtins w) tidb False table pages 0 0))"
    by (rule scan_run[OF sc])
  with real have "with_scanned (int (length (concat pages)))
                   (process_pages (builtins w) tidb False table pages 0 0)
                  = Inr (table', scanned, skipped, inserted)"
    by (simp add: migrate_range_unfold[OF prep])
  then have n: "scanned = int (length (concat pages))"
    and pp: "process_pages (builtins w) tidb False table pages 0 0 = Inr (table', skipped, inserted)"
    by (auto simp: with_scanned_def split: sum.splits)
  have sw: "sorted_wrt (\<lambda>p q. page_id_set (builtins w) p \<inter> page_id_set (builtins w) q = {}) pages"
    using apart by (simp add: sorted_wrt_iff_nth_less)
  have "process_pages (builtins w) tidb True table pages 0 0 = Inr (table, skipped, inserted)"
    by (rule dry_pages_match_real[OF pe ia pp, where seen = "{}"]) (use sw in simp_all)
  moreover have "migrate_pages (builtins w) milvus tidb mc start end page_size True 0 0 0 0 table
          = Some (with_scanned (0 + int (length (concat pages)))
                   (process_pages (builtins w) tidb True table pages 0 0))"
    by (rule scan_run[OF sc])
  ultimately show "migrate_range w mc tt start end page_size ssl True
            = Some (Inr (table, scanned, skipped, inserted))"
    using n by (simp add: migrate_range_unfold[OF prep] with_scanned_def)
qed

text \<open>
  A source with the id 7 on two pages of one row each, and an empty destination: the dry run
  counts two inserts, the normal run one insert and one skip.
\<close>

theorem dry_run_counterexample:
  "migrate_range (memory_world [id_row 7, id_row 7] []) ''chunk'' ''chunks'' 0 None 1 True True
     = Some (Inr ([], 2, 0, 2)) \<and>
   migrate_range (memory_world [id_row 7, id_row 7] []) ''chunk'' ''chunks'' 0 None 1 True False
     = Some (Inr ([bare_chunk 7], 2, 1, 1)) \<and>
   ((2::int), (0::int), (2::int)) \<noteq> (2, 1, 1)"
  by code_simp

theorem dry_run_non_mutation_witness:
  "prepare (memory_world [id_row 1, id_row 2, id_row 3] [bare_chunk 2]) ''chunk'' ''chunks'' True
     = Inr (snapshot_milvus (PDict []) [id_row 1, id_row 2, id_row 3],
            memory_tidb [bare_chunk 2], [bare_chunk 2]) \<and>
   migrate_range (memory_world [id_row 1, id_row 2, id_row 3] [bare_chunk 2])
       ''chunk'' ''chunks'' 0 None 2 True False
     = Some (Inr ([bare_chunk 2, bare_chunk 1, bare_chunk 3], 3, 1, 2)) \<and>
   migrate_range (memory_world [id_row 1, id_row 2, id_row 3] [bare_chunk 2])
       ''chunk'' ''chunks'' 0 None 2 True True
     = Some (Inr ([bare_chunk 2], 3, 1, 2)) \<and>
   (\<forall>b. migrate_pages (builtins (memory_world [id_row 1, id_row 2, id_row 3] [bare_chunk 2]))
          (snapshot_milvus (PDict []) [id_row 1, id_row 2, id_row 3])
          ((memory_tidb [bare_chunk 2])\<lparr>bulk_insert := b\<rparr>) ''chunk'' 0 None 2 True 0 0 0 0 [bare_chunk 2]
        = Some (Inr ([bare_chunk 2], 3, 1, 2)))"
proof -
  let ?rows = "[id_row 1, id_row 2, id_row 3]"
  let ?t0 = "[bare_chunk 2]"
  let ?w = "memory_world ?rows ?t0"
  let ?pages = "[[id_row 1, id_row 2], [id_row 3]]"
  let ?ids = "\<lambda>t :: real chunk list. chunk_id ` set t"
  have prep: "prepare ?w ''chunk'' ''chunks'' True
                = Inr (snapshot_milvus (PDict []) ?rows, memory_tidb ?t0, ?t0)"
    by (rule prepare_memory_world)
  have real: "migrate_range ?w ''chunk'' ''chunks'' 0 None 2 True False
                = Some (Inr ([bare_chunk 2, bare_chunk 1, bare_chunk 3], 3, 1, 2))"
    by code_simp
  have pe: "probe_exact (builtins ?w) (memory_tidb ?t0) ?ids"
    by (rule probe_exact_memory_tidb)
  have ia: "insert_adds (memory_tidb ?t0) ?ids"
    by (rule insert_adds_memory_tidb)
  have p01: "page_id_set (builtins ?w) (?pages ! 0) \<inter> page_id_set (builtins ?w) (?pages ! 1) = {}"
    by code_simp
  have apart: "\<forall>i j. i < j \<and> j < length ?pages \<longrightarrow>
                 page_id_set (builtins ?w) (?pages ! i) \<inter> page_id_set (builtins ?w) (?pages ! j) = {}"
  proof (intro allI impI)
    fix i j :: nat
    assume "i < j \<and> j < length ?pages"
    then have "i = 0 \<and> j = 1" by simp
    then show "page_id_set (builtins ?w) (?pages ! i) \<inter> page_id_set (builtins ?w) (?pages ! j) = {}"
      using p01 by simp
  qed
  note inst = dry_run_non_mutation[OF prep, where ids_of = ?ids and pages = ?pages and start = 0
      and ?end = None and page_size = 2 and table_d = ?t0 and scanned_d = 3 and skipped_d = 1
      and inserted_d = 2 and table' = "[bare_chunk 2, bare_chunk 1, bare_chunk 3]" and scanned = 3
      and skipped = 1 and inserted = 2]
  from inst pe ia scan_three_rows apart real
  have dry: "migrate_range ?w ''chunk'' ''chunks'' 0 None 2 True True = Some (Inr (?t0, 3, 1, 2))"
    by blast
  with inst have "\<forall>b. migrate_pages (builtins ?w) (snapshot_milvus (PDict []) ?rows)
          ((memory_tidb ?t0)\<lparr>bulk_insert := b\<rparr>) ''chunk'' 0 None 2 True 0 0 0 0 ?t0
        = Some (Inr (?t0, 3, 1, 2))"
    by blast
  with prep real dry show ?thesis by blast
qed

end
